theory Spec2Isabelle
  imports Main "HOL-Library.Sublist"
begin

section \<open>The graph store\<close>

text \<open>
  The route handlers of \<^verbatim>\<open>src/app/api/books/route.ts\<close> talk to a graph store through
  four Cypher queries. The store holds nodes with the labels \<^verbatim>\<open>Book\<close>, \<^verbatim>\<open>Author\<close> and
  \<^verbatim>\<open>Genre\<close> and relationships of the types \<^verbatim>\<open>WROTE\<close> (author to book) and
  \<^verbatim>\<open>IN_GENRE\<close> (book to genre). A book node carries the properties \<^verbatim>\<open>bookId\<close> and
  \<^verbatim>\<open>title\<close>, an author or genre node the property \<^verbatim>\<open>name\<close>; all of them are strings,
  as the interfaces \<^verbatim>\<open>Book\<close>, \<^verbatim>\<open>Author\<close> and \<^verbatim>\<open>Genre\<close> declare. Nodes and
  relationships have integer identities; both are kept in lists, in the order of creation,
  so that ill-formed stores (a repeated identity, two authors of one name, parallel
  relationships, dangling relationship ends) are values of the type and their absence is
  something to prove.
\<close>

datatype kind = Author | Genre

datatype node =
    BookNode string string  \<comment> \<open>\<^verbatim>\<open>(:Book {bookId, title})\<close>\<close>
  | NameNode kind string    \<comment> \<open>\<^verbatim>\<open>(:Author {name})\<close> or \<^verbatim>\<open>(:Genre {name})\<close>\<close>

datatype reltype = WROTE | IN_GENRE

record relationship =
  rid :: int
  rtype :: reltype
  src :: int
  dst :: int

record store =
  nodes :: "(int \<times> node) list"
  rels :: "relationship list"

definition empty_store :: store where
  "empty_store = \<lparr>nodes = [], rels = []\<rparr>"

text \<open>The relationship type that links a book to a node of a kind, and the two ends of
  such a relationship: \<^verbatim>\<open>(a:Author)-[:WROTE]->(b)\<close>, \<^verbatim>\<open>(b)-[:IN_GENRE]->(g:Genre)\<close>.\<close>

fun rel_of :: "kind \<Rightarrow> reltype" where
  "rel_of Author = WROTE"
| "rel_of Genre = IN_GENRE"

fun book_end :: "kind \<Rightarrow> relationship \<Rightarrow> int" where
  "book_end Author r = dst r"
| "book_end Genre r = src r"

fun other_end :: "kind \<Rightarrow> relationship \<Rightarrow> int" where
  "other_end Author r = src r"
| "other_end Genre r = dst r"

fun mk_rel :: "kind \<Rightarrow> int \<Rightarrow> int \<Rightarrow> int \<Rightarrow> relationship" where
  "mk_rel Author i b x = \<lparr>rid = i, rtype = WROTE, src = x, dst = b\<rparr>"
| "mk_rel Genre i b x = \<lparr>rid = i, rtype = IN_GENRE, src = b, dst = x\<rparr>"

text \<open>A new node or relationship gets an identity above every identity in use.\<close>

fun max_id :: "int list \<Rightarrow> int" where
  "max_id [] = - 1"
| "max_id (x # xs) = max x (max_id xs)"

definition fresh_node :: "store \<Rightarrow> int" where
  "fresh_node s = max_id (map fst (nodes s)) + 1"

definition fresh_rel :: "store \<Rightarrow> int" where
  "fresh_rel s = max_id (map rid (rels s)) + 1"

subsection \<open>Reading clauses\<close>

definition book_nodes :: "store \<Rightarrow> (int \<times> string \<times> string) list" where
  \<comment> \<open>\<^verbatim>\<open>MATCH (b:Book)\<close>: identity, bookId, title\<close>
  "book_nodes s = [(i, bid, t). (i, BookNode bid t) \<leftarrow> nodes s]"

definition named :: "kind \<Rightarrow> store \<Rightarrow> (int \<times> string) list" where
  \<comment> \<open>the nodes of label \<^verbatim>\<open>Author\<close> (or \<^verbatim>\<open>Genre\<close>): identity and name\<close>
  "named k s = [(i, n). (i, NameNode k' n) \<leftarrow> nodes s, k' = k]"

definition match_book :: "store \<Rightarrow> int \<Rightarrow> int list" where
  \<comment> \<open>\<^verbatim>\<open>MATCH (b:Book) WHERE id(b) = $id\<close>: one row for each match\<close>
  "match_book s i = [b. (b, bid, t) \<leftarrow> book_nodes s, b = i]"

definition links :: "kind \<Rightarrow> store \<Rightarrow> int \<Rightarrow> (relationship \<times> int \<times> string) list" where
  \<comment> \<open>\<^verbatim>\<open>MATCH (b)<-[r:WROTE]-(a:Author)\<close> and \<^verbatim>\<open>MATCH (b)-[r:IN_GENRE]->(g:Genre)\<close>
      for a bound \<open>b\<close>: one row for each relationship and node at its other end\<close>
  "links k s b =
     [(r, a). r \<leftarrow> rels s, rtype r = rel_of k \<and> book_end k r = b,
              a \<leftarrow> named k s, fst a = other_end k r]"

definition optional :: "'a list \<Rightarrow> 'a option list" where
  \<comment> \<open>\<^verbatim>\<open>OPTIONAL MATCH\<close>: a single row of nulls when the pattern has no match\<close>
  "optional xs = (if xs = [] then [None] else map Some xs)"

fun collect :: "'a option list \<Rightarrow> 'a list" where
  \<comment> \<open>\<^verbatim>\<open>collect(...)\<close> skips nulls\<close>
  "collect [] = []"
| "collect (None # xs) = collect xs"
| "collect (Some x # xs) = x # collect xs"

subsection \<open>Writing clauses\<close>

text \<open>A writing clause runs once for each row of the table it receives, in order, on
  the store the rows before it have left, and the rows it produces are concatenated.\<close>

fun clause :: "(store \<Rightarrow> 'a \<Rightarrow> store \<times> 'b list) \<Rightarrow> store \<Rightarrow> 'a list \<Rightarrow> store \<times> 'b list" where
  "clause f s [] = (s, [])"
| "clause f s (x # xs) =
     (case f s x of (s1, ys) \<Rightarrow>
        (case clause f s1 xs of (s2, zs) \<Rightarrow> (s2, ys @ zs)))"

definition set_title :: "store \<Rightarrow> int \<Rightarrow> string \<Rightarrow> store" where
  \<comment> \<open>\<^verbatim>\<open>SET b.title = $title\<close> for a book \<open>b\<close>\<close>
  "set_title s b t =
     s\<lparr>nodes := map (\<lambda>(i, n). case n of
                        BookNode bid old \<Rightarrow> if i = b then (i, BookNode bid t) else (i, n)
                      | NameNode k nm \<Rightarrow> (i, n)) (nodes s)\<rparr>"

definition delete_rel :: "store \<Rightarrow> relationship option \<Rightarrow> store" where
  \<comment> \<open>\<^verbatim>\<open>DELETE oldRel\<close>: deleting null does nothing\<close>
  "delete_rel s ro =
     (case ro of None \<Rightarrow> s
      | Some r \<Rightarrow> s\<lparr>rels := [x \<leftarrow> rels s. rid x \<noteq> rid r]\<rparr>)"

definition detach_delete :: "store \<Rightarrow> int \<Rightarrow> store" where
  \<comment> \<open>\<^verbatim>\<open>DETACH DELETE b\<close>: the node and every relationship that starts or ends at it\<close>
  "detach_delete s b =
     \<lparr>nodes = [n \<leftarrow> nodes s. fst n \<noteq> b],
      rels = [r \<leftarrow> rels s. src r \<noteq> b \<and> dst r \<noteq> b]\<rparr>"

definition create_book :: "store \<Rightarrow> string \<Rightarrow> string \<Rightarrow> store \<times> int" where
  \<comment> \<open>\<^verbatim>\<open>CREATE (b:Book { bookId: $bookId, title: $title })\<close>\<close>
  "create_book s bid t =
     (let b = fresh_node s in (s\<lparr>nodes := nodes s @ [(b, BookNode bid t)]\<rparr>, b))"

definition merge_node :: "kind \<Rightarrow> store \<Rightarrow> string \<Rightarrow> store \<times> int list" where
  \<comment> \<open>\<^verbatim>\<open>MERGE (a:Author { name: authorName })\<close>: every node that matches, or else
      a new one\<close>
  "merge_node k s n =
     (let ms = [i. (i, n') \<leftarrow> named k s, n' = n] in
      if ms = []
      then (let i = fresh_node s in (s\<lparr>nodes := nodes s @ [(i, NameNode k n)]\<rparr>, [i]))
      else (s, ms))"

definition merge_rel :: "kind \<Rightarrow> store \<Rightarrow> int \<Rightarrow> int \<Rightarrow> store \<times> relationship list" where
  \<comment> \<open>\<^verbatim>\<open>MERGE (a)-[:WROTE]->(b)\<close> and \<^verbatim>\<open>MERGE (b)-[:IN_GENRE]->(g)\<close> for bound ends\<close>
  "merge_rel k s b x =
     (let ms = [r \<leftarrow> rels s. rtype r = rel_of k \<and> book_end k r = b \<and> other_end k r = x] in
      if ms = []
      then (let r = mk_rel k (fresh_rel s) b x in (s\<lparr>rels := rels s @ [r]\<rparr>, [r]))
      else (s, ms))"

subsection \<open>Query fragments shared by the handlers\<close>

definition merge_node_row :: "kind \<Rightarrow> store \<Rightarrow> 'r \<times> string \<Rightarrow> store \<times> ('r \<times> int) list" where
  \<comment> \<open>\<^verbatim>\<open>MERGE (a:Author { name: authorName })\<close> on one row: the row is kept once for
      each node the clause binds\<close>
  "merge_node_row k s row =
     (case row of (r, n) \<Rightarrow> case merge_node k s n of (s', xs) \<Rightarrow> (s', map (Pair r) xs))"

definition merge_rel_row ::
  "kind \<Rightarrow> ('r \<Rightarrow> int) \<Rightarrow> store \<Rightarrow> 'r \<times> int \<Rightarrow> store \<times> ('r \<times> int) list" where
  \<comment> \<open>\<^verbatim>\<open>MERGE (a)-[:WROTE]->(b)\<close> on one row; \<open>bof\<close> reads the book \<open>b\<close> off the row\<close>
  "merge_rel_row k bof s row =
     (case row of (r, x) \<Rightarrow>
        case merge_rel k s (bof r) x of (s', ms) \<Rightarrow> (s', map (\<lambda>m. (r, x)) ms))"

definition unwind_merge ::
  "kind \<Rightarrow> ('r \<Rightarrow> int) \<Rightarrow> store \<Rightarrow> 'r list \<Rightarrow> string list \<Rightarrow> store \<times> ('r \<times> int) list" where
  \<comment> \<open>\<^verbatim>\<open>UNWIND $authors AS authorName MERGE (a:Author { name: authorName })
      MERGE (a)-[:WROTE]->(b)\<close> (and the same for genres) on a table of rows. The rows
      that leave it bind the merged node as well.\<close>
  "unwind_merge k bof s rows names =
     (let rows1 = [(r, n). r \<leftarrow> rows, n \<leftarrow> names] in
      case clause (merge_node_row k) s rows1 of
        (s1, rows2) \<Rightarrow> clause (merge_rel_row k bof) s1 rows2)"

definition return_collect ::
  "(int \<times> string \<Rightarrow> 'x) \<Rightarrow> store \<Rightarrow> int list \<Rightarrow>
   (int \<times> string \<times> string \<times> 'x list \<times> 'x list) list" where
  \<comment> \<open>\<^verbatim>\<open>OPTIONAL MATCH (b)<-[:WROTE]-(a:Author) OPTIONAL MATCH (b)-[:IN_GENRE]->(g:Genre)
      RETURN b, collect(DISTINCT a) AS authors, collect(DISTINCT g) AS genres\<close>
      on the rows \<open>bs\<close>: one row for each author and genre of a book, grouped by \<open>b\<close>;
      \<open>p\<close> is what is collected of a node (the node, or its name). A record holds the
      identity and the properties (bookId, title) of \<open>b\<close> and the two collected lists.
      The order inside a collected list is not fixed by the query.\<close>
  "return_collect p s bs =
     (let rows = [(b, a, g). b \<leftarrow> bs,
                    a \<leftarrow> optional (map snd (links Author s b)),
                    g \<leftarrow> optional (map snd (links Genre s b))]
      in [(b, bid, t,
           remdups (collect [map_option p a. (b1, a, g) \<leftarrow> rows, b1 = b]),
           remdups (collect [map_option p g. (b1, a, g) \<leftarrow> rows, b1 = b])).
          b \<leftarrow> remdups (map fst rows), (b2, bid, t) \<leftarrow> book_nodes s, b2 = b])"

section \<open>Requests and responses\<close>

text \<open>
  A query parameter read with \<^verbatim>\<open>searchParams.get\<close> is a string or null; one read with
  \<^verbatim>\<open>getAll\<close> is a list of strings, empty when the parameter is not there. A request body
  is parsed JSON whose fields can be anything: \<open>json\<close> keeps what the handlers tell
  apart (undefined for a field that is not there; an array holds name strings). The title,
  when it is there, is a string.

  Left out of the model: a body that is not JSON, a store that cannot be reached or that
  rejects a query (the handlers answer 500, or 200 without success for POST), requests
  that run at the same time, and the rendering of a response as JSON text, except for the
  error object that POST puts into its response.
\<close>

datatype json =
    JUndefined | JNull | JBool bool | JNum int | JStr string | JArr "string list" | JObj

fun truthy :: "json \<Rightarrow> bool" where
  "truthy JUndefined = False"
| "truthy JNull = False"
| "truthy (JBool b) = b"
| "truthy (JNum n) = (n \<noteq> 0)"
| "truthy (JStr s) = (s \<noteq> [])"
| "truthy (JArr xs) = True"
| "truthy JObj = True"

fun isArray :: "json \<Rightarrow> bool" where
  "isArray (JArr xs) = True"
| "isArray j = False"

fun elements :: "json \<Rightarrow> string list" where
  "elements (JArr xs) = xs"
| "elements j = []"

fun truthy_param :: "string option \<Rightarrow> bool" where
  \<comment> \<open>\<^verbatim>\<open>if (id)\<close>, \<^verbatim>\<open>!title\<close>: null and the empty string are falsy\<close>
  "truthy_param None = False"
| "truthy_param (Some v) = (v \<noteq> [])"

record get_request =
  q_id :: "string option"
  q_title :: "string option"
  q_bookId :: "string option"
  q_author :: "string list"
  q_genre :: "string list"

record body =
  title :: "string option"
  authors :: json
  genres :: json

datatype js_error = Error string | TypeError string

fun String_of :: "js_error \<Rightarrow> string" where
  \<comment> \<open>\<^verbatim>\<open>String(err)\<close>\<close>
  "String_of (Error m) = ''Error: '' @ m"
| "String_of (TypeError m) = ''TypeError: '' @ m"

record 'n book_out =
  out_id :: int  \<comment> \<open>\<^verbatim>\<open>bookNode.identity.toString()\<close>: the identity, written in decimal\<close>
  out_bookId :: string
  out_title :: string
  out_authors :: "'n list"
  out_genres :: "'n list"

datatype payload =
    Books "string book_out list"        \<comment> \<open>\<^verbatim>\<open>data\<close> of GET\<close>
  | Created "string option book_out"
      \<comment> \<open>\<^verbatim>\<open>data\<close> of POST; its lists hold \<^verbatim>\<open>a.name\<close> of node objects, which is
          undefined (\<open>None\<close>), the name being a.properties.name\<close>
  | Updated "string book_out"          \<comment> \<open>\<^verbatim>\<open>data\<close> of PUT\<close>
  | DeletedCount nat                   \<comment> \<open>\<^verbatim>\<open>deletedCount\<close>\<close>
  | ErrorText string                   \<comment> \<open>\<^verbatim>\<open>error\<close>: a message\<close>
  | Err "(string \<times> string) list"
      \<comment> \<open>\<^verbatim>\<open>err\<close>: the error object that was caught, as \<^verbatim>\<open>NextResponse.json\<close> writes it:
          the object of its enumerable properties\<close>

fun enumerable :: "js_error \<Rightarrow> (string \<times> string) list" where
  \<comment> \<open>the enumerable own properties of an error object, which are what
      \<^verbatim>\<open>JSON.stringify\<close> writes of it: none, \<^verbatim>\<open>message\<close> and \<^verbatim>\<open>stack\<close> not being
      enumerable, so that the object is written \<^verbatim>\<open>{}\<close>\<close>
  "enumerable (Error m) = []"
| "enumerable (TypeError m) = []"

record response =
  status :: nat
  success :: bool
  payload :: payload

definition failure :: "nat \<Rightarrow> string \<Rightarrow> response" where
  \<comment> \<open>\<^verbatim>\<open>NextResponse.json({ success: false, error: ... }, { status: ... })\<close>\<close>
  "failure st msg = \<lparr>status = st, success = False, payload = ErrorText msg\<rparr>"

definition ok :: "payload \<Rightarrow> response" where
  \<comment> \<open>\<^verbatim>\<open>NextResponse.json({ success: true, ... })\<close>: the status is 200\<close>
  "ok p = \<lparr>status = 200, success = True, payload = p\<rparr>"

section \<open>GET: search\<close>

definition lower_char :: "char \<Rightarrow> char" where
  "lower_char c =
     (let n = (of_char c :: nat) in if 65 \<le> n \<and> n \<le> 90 then char_of (n + 32) else c)"

definition toLower :: "string \<Rightarrow> string" where
  \<comment> \<open>\<^verbatim>\<open>toLower(...)\<close>, on the letters A to Z\<close>
  "toLower s = map lower_char s"

fun contains :: "string \<Rightarrow> string \<Rightarrow> bool" where
  \<comment> \<open>\<^verbatim>\<open>s CONTAINS sub\<close>\<close>
  "contains [] sub = (sub = [])"
| "contains (c # cs) sub = (prefix sub (c # cs) \<or> contains cs sub)"

datatype condition =
    IdEq int                  \<comment> \<open>\<^verbatim>\<open>id(b) = $id\<close>\<close>
  | TitleContains string      \<comment> \<open>\<^verbatim>\<open>toLower(b.title) CONTAINS toLower($title)\<close>\<close>
  | BookIdEq string           \<comment> \<open>\<^verbatim>\<open>b.bookId = $bookId\<close>\<close>
  | AnyName kind "string list"
      \<comment> \<open>\<^verbatim>\<open>EXISTS { MATCH (b)<-[:WROTE]-(a:Author) WHERE any(searchName IN $authors
          WHERE toLower(a.name) CONTAINS toLower(searchName)) }\<close>, and the same with
          \<^verbatim>\<open>(b)-[:IN_GENRE]->(g:Genre)\<close> and \<^verbatim>\<open>$genres\<close>\<close>

fun holds :: "store \<Rightarrow> int \<times> string \<times> string \<Rightarrow> condition \<Rightarrow> bool" where
  "holds s (b, bid, t) (IdEq v) = (b = v)"
| "holds s (b, bid, t) (TitleContains v) = contains (toLower t) (toLower v)"
| "holds s (b, bid, t) (BookIdEq v) = (bid = v)"
| "holds s (b, bid, t) (AnyName k vs) =
     list_ex (\<lambda>(r, a, n). list_ex (\<lambda>v. contains (toLower n) (toLower v)) vs) (links k s b)"

definition build_conditions ::
  "(string \<Rightarrow> js_error + int) \<Rightarrow> get_request \<Rightarrow> js_error + condition list" where
  \<comment> \<open>the pushes onto \<^verbatim>\<open>conditions\<close>, in the order of the source; \<open>neo4j_int\<close> is the
      driver's \<^verbatim>\<open>neo4j.int\<close>, which is not part of the repository: it gives the integer a
      text stands for, or throws\<close>
  "build_conditions neo4j_int q =
     (case (if truthy_param (q_id q)
            then (case neo4j_int (the (q_id q)) of Inl e \<Rightarrow> Inl e | Inr v \<Rightarrow> Inr [IdEq v])
            else Inr []) of
        Inl e \<Rightarrow> Inl e
      | Inr c1 \<Rightarrow>
          Inr (c1
            @ (if truthy_param (q_title q) then [TitleContains (the (q_title q))] else [])
            @ (if truthy_param (q_bookId q) then [BookIdEq (the (q_bookId q))] else [])
            @ (if length (q_author q) > 0 then [AnyName Author (q_author q)] else [])
            @ (if length (q_genre q) > 0 then [AnyName Genre (q_genre q)] else [])))"

definition get_query :: "store \<Rightarrow> condition list \<Rightarrow>
    (int \<times> string \<times> string \<times> (int \<times> string) list \<times> (int \<times> string) list) list" where
  \<comment> \<open>\<^verbatim>\<open>MATCH (b:Book) ${whereClause} OPTIONAL MATCH ... RETURN b, collect(DISTINCT a) AS
      authors, collect(DISTINCT g) AS genres\<close>, where \<^verbatim>\<open>whereClause\<close> joins the conditions
      with \<^verbatim>\<open>AND\<close> and is empty when there is none\<close>
  "get_query s conditions =
     (let bs = (if length conditions > 0
                then [b \<leftarrow> book_nodes s. list_all (holds s b) conditions]
                else book_nodes s)
      in return_collect (\<lambda>a. a) s (map fst bs))"

definition GET :: "(string \<Rightarrow> js_error + int) \<Rightarrow> store \<Rightarrow> get_request \<Rightarrow> response" where
  \<comment> \<open>\<^verbatim>\<open>.filter((a) => a)\<close> keeps every collected node, a node object being truthy\<close>
  "GET neo4j_int s q =
     (case build_conditions neo4j_int q of
        Inl e \<Rightarrow> failure 500 (String_of e)
      | Inr conditions \<Rightarrow>
          ok (Books (map (\<lambda>(b, bid, t, as, gs).
                \<lparr>out_id = b, out_bookId = bid, out_title = t,
                 out_authors = map snd [a \<leftarrow> as. True],
                 out_genres = map snd [g \<leftarrow> gs. True]\<rparr>)
              (get_query s conditions))))"

section \<open>POST: create\<close>

definition post_validate :: "body \<Rightarrow> js_error option" where
  "post_validate bd =
     (if \<not> truthy_param (title bd) then Some (Error ''Book title missing'')
      else if \<not> truthy (authors bd) \<or> \<not> isArray (authors bd) \<or> length (elements (authors bd)) = 0
      then Some (Error ''At least one author required'')
      else if \<not> truthy (genres bd) \<or> \<not> isArray (genres bd) \<or> length (elements (genres bd)) = 0
      then Some (Error ''At least one genre required'')
      else None)"

definition post_query :: "store \<Rightarrow> string \<Rightarrow> string \<Rightarrow> string list \<Rightarrow> string list \<Rightarrow>
    store \<times> (int \<times> int list \<times> int list) list" where
  \<comment> \<open>\<^verbatim>\<open>CREATE (b:Book {...}) WITH b UNWIND $authors ... MERGE ... MERGE ...
      WITH b, collect(DISTINCT a) AS authors UNWIND $genres ... MERGE ... MERGE ...
      RETURN b, authors, collect(DISTINCT g) AS genres\<close>\<close>
  "post_query s bookId t as gs =
     (case create_book s bookId t of (s1, b) \<Rightarrow>
      case unwind_merge Author (\<lambda>b. b) s1 [b] as of (s2, rows1) \<Rightarrow>
      let rows2 = [(b1, remdups [a. (b2, a) \<leftarrow> rows1, b2 = b1]). b1 \<leftarrow> remdups (map fst rows1)] in
      case unwind_merge Genre fst s2 rows2 gs of (s3, rows3) \<Rightarrow>
        (s3, [(b1, as1, remdups [g. (k2, g) \<leftarrow> rows3, k2 = (b1, as1)]).
               (b1, as1) \<leftarrow> remdups (map fst rows3)]))"

definition POST :: "store \<Rightarrow> string \<Rightarrow> body \<Rightarrow> response \<times> store" where
  \<comment> \<open>\<open>bookId\<close> is the value \<^verbatim>\<open>uuidv4()\<close> gives for this request. The handler's catch
      answers with \<^verbatim>\<open>{ success: false, err }\<close> and no status, hence 200; the other
      handlers answer with \<^verbatim>\<open>error: String(err)\<close>. Reading
      \<^verbatim>\<open>result.records[0]\<close> of an empty result gives undefined, and \<^verbatim>\<open>record.get\<close> throws.\<close>
  "POST s bookId bd =
     (case post_validate bd of
        Some e \<Rightarrow> (\<lparr>status = 200, success = False, payload = Err (enumerable e)\<rparr>, s)
      | None \<Rightarrow>
          (case post_query s bookId (the (title bd)) (elements (authors bd)) (elements (genres bd)) of
             (s', records) \<Rightarrow>
               (case records of
                  [] \<Rightarrow> (\<lparr>status = 200, success = False,
                          payload = Err (enumerable
                            (TypeError ''Cannot read properties of undefined''))\<rparr>, s')
                | (b, as, gs) # rest \<Rightarrow>
                    (ok (Created \<lparr>out_id = b, out_bookId = bookId, out_title = the (title bd),
                                  out_authors = map (\<lambda>a. None) as,
                                  out_genres = map (\<lambda>g. None) gs\<rparr>), s'))))"

section \<open>PUT: update\<close>

definition put_validate :: "body \<Rightarrow> js_error option" where
  "put_validate bd =
     (if \<not> truthy_param (title bd) then Some (Error ''Book title missing'')
      else if \<not> truthy (authors bd) \<or> \<not> isArray (authors bd)
      then Some (Error ''Authors must be an array'')
      else if \<not> truthy (genres bd) \<or> \<not> isArray (genres bd)
      then Some (Error ''Genres must be an array'')
      else None)"

definition put_detach :: "kind \<Rightarrow> store \<Rightarrow> int list \<Rightarrow> store \<times> int list" where
  \<comment> \<open>\<^verbatim>\<open>WITH b OPTIONAL MATCH (b)<-[oldRel:WROTE]-(:Author) DELETE oldRel\<close> and
      \<^verbatim>\<open>WITH b OPTIONAL MATCH (b)-[oldRel2:IN_GENRE]->(:Genre) DELETE oldRel2\<close> on the
      rows \<open>bs\<close>: one row for each old relationship of a book, or one row with null; the
      rows that leave it are cut back to \<open>b\<close> by the next \<^verbatim>\<open>WITH b\<close>\<close>
  "put_detach k s bs =
     (let rows = [(b, r). b \<leftarrow> bs, r \<leftarrow> optional (map fst (links k s b))]
      in (foldl delete_rel s (map snd rows), map fst rows))"

definition put_query :: "store \<Rightarrow> int \<Rightarrow> string \<Rightarrow> string list \<Rightarrow> string list \<Rightarrow>
    store \<times> (int \<times> string \<times> string \<times> string list \<times> string list) list" where
  \<comment> \<open>\<^verbatim>\<open>MATCH (b:Book) WHERE id(b) = $id SET b.title = $title\<close>, the two deletions, the
      two \<^verbatim>\<open>UNWIND ... MERGE ... MERGE\<close> and the final \<^verbatim>\<open>OPTIONAL MATCH ... RETURN b,
      collect(DISTINCT a.name) AS authors, collect(DISTINCT g.name) AS genres\<close>\<close>
  "put_query s i t as gs =
     (let bs0 = match_book s i;
          s1 = foldl (\<lambda>s b. set_title s b t) s bs0
      in case put_detach Author s1 bs0 of (s2, bs1) \<Rightarrow>
         case put_detach Genre s2 bs1 of (s3, bs2) \<Rightarrow>
         case unwind_merge Author (\<lambda>b. b) s3 bs2 as of (s4, rows3) \<Rightarrow>
         case unwind_merge Genre (\<lambda>b. b) s4 (map fst rows3) gs of (s5, rows4) \<Rightarrow>
           (s5, return_collect snd s5 (map fst rows4)))"

definition PUT ::
  "(string \<Rightarrow> js_error + int) \<Rightarrow> store \<Rightarrow> string option \<Rightarrow> body \<Rightarrow> response \<times> store" where
  "PUT neo4j_int s idParam bd =
     (if \<not> truthy_param idParam then (failure 400 ''Missing required id'', s)
      else case put_validate bd of
        Some e \<Rightarrow> (failure 500 (String_of e), s)
      | None \<Rightarrow>
          (case neo4j_int (the idParam) of
             Inl e \<Rightarrow> (failure 500 (String_of e), s)
           | Inr i \<Rightarrow>
               (case put_query s i (the (title bd)) (elements (authors bd)) (elements (genres bd)) of
                  (s', records) \<Rightarrow>
                    (case records of
                       [] \<Rightarrow> (failure 404 ''Book not found'', s')
                     | (b, bid, t, as, gs) # rest \<Rightarrow>
                         (ok (Updated \<lparr>out_id = b, out_bookId = bid, out_title = t,
                                       out_authors = as, out_genres = gs\<rparr>), s')))))"

section \<open>DELETE\<close>

definition delete_query :: "store \<Rightarrow> int \<Rightarrow> store \<times> nat" where
  \<comment> \<open>\<^verbatim>\<open>MATCH (b: Book) WHERE id(b) = $id DETACH DELETE b RETURN count(b) AS deletedCount\<close>:
      an aggregate without a grouping key gives one record, also for no row\<close>
  "delete_query s i =
     (let bs = match_book s i in (foldl detach_delete s bs, length bs))"

definition DELETE ::
  "(string \<Rightarrow> js_error + int) \<Rightarrow> store \<Rightarrow> string option \<Rightarrow> response \<times> store" where
  "DELETE neo4j_int s idParam =
     (if \<not> truthy_param idParam then (failure 400 ''Missing required id'', s)
      else case neo4j_int (the idParam) of
        Inl e \<Rightarrow> (failure 500 (String_of e), s)
      | Inr i \<Rightarrow>
          (case delete_query s i of
             (s', deletedCount) \<Rightarrow> (ok (DeletedCount deletedCount), s')))"

section \<open>Vocabulary of the properties\<close>

definition bad_list :: "json \<Rightarrow> bool" where
  \<comment> \<open>a list field that is missing, not an array, or an empty array\<close>
  "bad_list j = (j = JUndefined \<or> \<not> isArray j \<or> j = JArr [])"

definition linked_names :: "kind \<Rightarrow> store \<Rightarrow> int \<Rightarrow> string set" where
  \<comment> \<open>the names of the authors (genres) a book has a relationship with\<close>
  "linked_names k s b = set (map (\<lambda>(r, a, n). n) (links k s b))"

definition demo_int :: "string \<Rightarrow> js_error + int" where
  \<comment> \<open>a conversion of identity texts for the examples: one digit, anything else throws\<close>
  "demo_int v =
     (if v = ''0'' then Inr 0 else if v = ''1'' then Inr 1 else if v = ''2'' then Inr 2
      else if v = ''3'' then Inr 3 else if v = ''4'' then Inr 4 else if v = ''5'' then Inr 5
      else Inl (Error ''number format error''))"

definition present_filters :: "get_request \<Rightarrow> nat" where
  \<comment> \<open>the number of search filters that are present in the request, an empty value
      counting as present\<close>
  "present_filters q =
     (if q_id q \<noteq> None then 1 else 0) + (if q_title q \<noteq> None then 1 else 0)
     + (if q_bookId q \<noteq> None then 1 else 0) + (if q_author q \<noteq> [] then 1 else 0)
     + (if q_genre q \<noteq> [] then 1 else 0)"

definition supplied_filters :: "get_request \<Rightarrow> nat" where
  \<comment> \<open>the number of search filters that are present with a value that is not empty\<close>
  "supplied_filters q =
     (if truthy_param (q_id q) then 1 else 0) + (if truthy_param (q_title q) then 1 else 0)
     + (if truthy_param (q_bookId q) then 1 else 0) + (if q_author q \<noteq> [] then 1 else 0)
     + (if q_genre q \<noteq> [] then 1 else 0)"

definition listed :: "response \<Rightarrow> string book_out list" where
  \<comment> \<open>the books a GET response lists\<close>
  "listed r = (case payload r of Books bs \<Rightarrow> bs | _ \<Rightarrow> [])"

definition unique_names :: "kind \<Rightarrow> store \<Rightarrow> bool" where
  \<comment> \<open>no two nodes of the kind have the same name\<close>
  "unique_names k s = distinct (map snd (named k s))"

definition unique_rels :: "store \<Rightarrow> bool" where
  \<comment> \<open>no two relationships have the same type and the same ends\<close>
  "unique_rels s = distinct (map (\<lambda>r. (rtype r, src r, dst r)) (rels s))"

definition valid :: "store \<Rightarrow> bool" where
  "valid s =
     (distinct (map fst (nodes s)) \<and> unique_names Author s \<and> unique_names Genre s
      \<and> unique_rels s)"

inductive reachable :: "store \<Rightarrow> bool" where
  \<comment> \<open>the stores the handlers produce, starting from the empty store\<close>
  init: "reachable empty_store"
| post: "reachable s \<Longrightarrow> reachable (snd (POST s bookId bd))"
| put: "reachable s \<Longrightarrow> reachable (snd (PUT neo4j_int s idParam bd))"
| delete: "reachable s \<Longrightarrow> reachable (snd (DELETE neo4j_int s idParam))"

definition example_store :: store where
  \<comment> \<open>two books that share an author and a genre, for the examples\<close>
  "example_store =
     \<lparr>nodes = [(0, BookNode ''u1'' ''Dune''), (1, NameNode Author ''Frank''),
               (2, NameNode Author ''Shared''), (3, NameNode Genre ''Novel''),
               (4, BookNode ''u2'' ''Emma''), (5, NameNode Genre ''Classic'')],
      rels = [\<lparr>rid = 0, rtype = WROTE, src = 1, dst = 0\<rparr>,
              \<lparr>rid = 1, rtype = WROTE, src = 2, dst = 0\<rparr>,
              \<lparr>rid = 2, rtype = IN_GENRE, src = 0, dst = 3\<rparr>,
              \<lparr>rid = 3, rtype = WROTE, src = 2, dst = 4\<rparr>,
              \<lparr>rid = 4, rtype = IN_GENRE, src = 4, dst = 3\<rparr>,
              \<lparr>rid = 5, rtype = IN_GENRE, src = 4, dst = 5\<rparr>]\<rparr>"



section \<open>Basic facts about the reading clauses\<close>

lemma in_book_nodes:
  "(i, bid, t) \<in> set (book_nodes s) \<longleftrightarrow> (i, BookNode bid t) \<in> set (nodes s)"
  by (auto simp: book_nodes_def split: node.splits)

lemma in_named: "(i, n) \<in> set (named k s) \<longleftrightarrow> (i, NameNode k n) \<in> set (nodes s)"
  by (auto simp: named_def split: node.splits)

lemma in_links:
  "(r, a, n) \<in> set (links k s b) \<longleftrightarrow>
     r \<in> set (rels s) \<and> rtype r = rel_of k \<and> book_end k r = b \<and> other_end k r = a \<and>
     (a, NameNode k n) \<in> set (nodes s)"
  by (auto simp: links_def in_named)

lemma in_match_book:
  "b \<in> set (match_book s i) \<longleftrightarrow> b = i \<and> (\<exists>bid t. (i, BookNode bid t) \<in> set (nodes s))"
  by (force simp: match_book_def in_book_nodes)

lemma bad_list_iff:
  "bad_list j \<longleftrightarrow> (\<not> truthy j \<or> \<not> isArray j \<or> length (elements j) = 0)"
  by (cases j) (auto simp: bad_list_def)

section \<open>Create: validation\<close>

lemma post_validation_rejects:
  "(\<not> truthy_param (title bd) \<longrightarrow> post_validate bd = Some (Error ''Book title missing''))
   \<and> (truthy_param (title bd) \<and> bad_list (authors bd) \<longrightarrow>
        post_validate bd = Some (Error ''At least one author required''))
   \<and> (truthy_param (title bd) \<and> \<not> bad_list (authors bd) \<and> bad_list (genres bd) \<longrightarrow>
        post_validate bd = Some (Error ''At least one genre required''))
   \<and> (post_validate bd \<noteq> None \<longrightarrow>
        POST s u bd = (\<lparr>status = 200, success = False, payload = Err []\<rparr>, s))"
  by (auto simp: POST_def post_validate_def bad_list_iff)

text \<open>
  Claim C7 fails on the code. A POST body without a title, one without authors and one
  without genres do throw errors of three different messages before the store is
  written, and the response has status 200 and \<open>success = False\<close>; but the catch puts
  the error object itself into the response, which is written as the empty object, so
  that the three failures get the same response and the message that tells them apart
  does not reach the caller.
\<close>

theorem post_validation_failures_answer_alike:
  "post_validate \<lparr>title = Some [], authors = JArr [''A''], genres = JArr [''X'']\<rparr> =
     Some (Error ''Book title missing'')
   \<and> post_validate \<lparr>title = Some ''Dune'', authors = JArr [], genres = JArr [''X'']\<rparr> =
     Some (Error ''At least one author required'')
   \<and> post_validate \<lparr>title = Some ''Dune'', authors = JArr [''A''], genres = JArr []\<rparr> =
     Some (Error ''At least one genre required'')
   \<and> POST empty_store ''u1'' \<lparr>title = Some [], authors = JArr [''A''], genres = JArr [''X'']\<rparr> =
     (\<lparr>status = 200, success = False, payload = Err []\<rparr>, empty_store)
   \<and> POST empty_store ''u1'' \<lparr>title = Some ''Dune'', authors = JArr [], genres = JArr [''X'']\<rparr> =
     (\<lparr>status = 200, success = False, payload = Err []\<rparr>, empty_store)
   \<and> POST empty_store ''u1'' \<lparr>title = Some ''Dune'', authors = JArr [''A''], genres = JArr []\<rparr> =
     (\<lparr>status = 200, success = False, payload = Err []\<rparr>, empty_store)"
  by (simp add: POST_def post_validate_def)

theorem post_validation_failures_answer_alike_witness:
  "POST empty_store ''u1'' \<lparr>title = Some [], authors = JArr [''A''], genres = JArr [''X'']\<rparr> =
     POST empty_store ''u1'' \<lparr>title = Some ''Dune'', authors = JArr [], genres = JArr [''X'']\<rparr>
   \<and> POST empty_store ''u1'' \<lparr>title = Some ''Dune'', authors = JArr [], genres = JArr [''X'']\<rparr> =
     POST empty_store ''u1'' \<lparr>title = Some ''Dune'', authors = JArr [''A''], genres = JArr []\<rparr>
   \<and> Error ''Book title missing'' \<noteq> Error ''At least one author required''
   \<and> Error ''At least one author required'' \<noteq> Error ''At least one genre required''
   \<and> Error ''Book title missing'' \<noteq> Error ''At least one genre required''"
  using post_validation_failures_answer_alike by simp

section \<open>Delete\<close>

lemma match_book_none: "\<forall>bid t. (i, BookNode bid t) \<notin> set (nodes s) \<Longrightarrow> match_book s i = []"
  using in_match_book[of _ s i] by (metis equals0I set_empty2 empty_set)

lemma match_book_one_aux:
  "distinct (map fst ns) \<Longrightarrow> (i, BookNode bid t) \<in> set ns \<Longrightarrow>
   [b. (b, bid', t') \<leftarrow> [(i, bid, t). (i, BookNode bid t) \<leftarrow> ns], b = i] = [i]"
proof (induction ns)
  case Nil then show ?case by simp
next
  case (Cons x ns)
  show ?case
  proof (cases "x = (i, BookNode bid t)")
    case True
    then have "i \<notin> fst ` set ns" using Cons.prems by auto
    then have "[b. (b, bid', t') \<leftarrow> [(i, bid, t). (i, BookNode bid t) \<leftarrow> ns], b = i] = []"
      by (induction ns) (auto split: node.splits)
    with True show ?thesis by simp
  next
    case False
    then have "fst x \<noteq> i" using Cons.prems by (cases x) (auto simp: rev_image_eqI)
    then show ?thesis using Cons False by (cases x) (auto split: node.splits)
  qed
qed

lemma match_book_one:
  "distinct (map fst (nodes s)) \<Longrightarrow> (i, BookNode bid t) \<in> set (nodes s) \<Longrightarrow>
   match_book s i = [i]"
  unfolding match_book_def book_nodes_def by (rule match_book_one_aux)

text \<open>
  Claim C9. In a store whose node identities are distinct, a DELETE request whose id
  names a book removes that book node and every relationship that starts or ends at it,
  leaves the rest of the store as it was, and reports \<open>deletedCount\<close> 1; when no book has
  that identity the response is a success with \<open>deletedCount\<close> 0 and the store is
  unchanged; when the id parameter is absent (or empty) the response is 400.
\<close>

theorem delete_removes_book:
  assumes "distinct (map fst (nodes s))"
  shows "(\<not> truthy_param idParam \<longrightarrow>
            DELETE neo4j_int s idParam = (failure 400 ''Missing required id'', s))
       \<and> (truthy_param idParam \<and> neo4j_int (the idParam) = Inr i
            \<and> (i, BookNode bid t) \<in> set (nodes s) \<longrightarrow>
            DELETE neo4j_int s idParam =
              (ok (DeletedCount 1),
               \<lparr>nodes = [n \<leftarrow> nodes s. fst n \<noteq> i],
                rels = [r \<leftarrow> rels s. src r \<noteq> i \<and> dst r \<noteq> i]\<rparr>))
       \<and> (truthy_param idParam \<and> neo4j_int (the idParam) = Inr i
            \<and> (\<forall>bid t. (i, BookNode bid t) \<notin> set (nodes s)) \<longrightarrow>
            DELETE neo4j_int s idParam = (ok (DeletedCount 0), s))"
  using assms
  by (auto simp: DELETE_def delete_query_def match_book_one match_book_none detach_delete_def)

theorem delete_removes_book_witness:
  "DELETE demo_int example_store None = (failure 400 ''Missing required id'', example_store)
   \<and> DELETE demo_int example_store (Some ''0'') =
       (ok (DeletedCount 1),
        \<lparr>nodes = [n \<leftarrow> nodes example_store. fst n \<noteq> 0],
         rels = [r \<leftarrow> rels example_store. src r \<noteq> 0 \<and> dst r \<noteq> 0]\<rparr>)
   \<and> DELETE demo_int example_store (Some ''5'') = (ok (DeletedCount 0), example_store)"
proof -
  have d: "distinct (map fst (nodes example_store))" by (simp add: example_store_def)
  have b: "(0, BookNode ''u1'' ''Dune'') \<in> set (nodes example_store)"
    by (simp add: example_store_def)
  have n: "\<forall>bid t. (5, BookNode bid t) \<notin> set (nodes example_store)"
    by (simp add: example_store_def)
  have c0: "demo_int (the (Some ''0'')) = Inr 0" and c5: "demo_int (the (Some ''5'')) = Inr 5"
    by (simp_all add: demo_int_def)
  show ?thesis
    using delete_removes_book [OF d, of None demo_int 0 "''u1''" "''Dune''"]
      delete_removes_book [OF d, of "Some ''0''" demo_int 0 "''u1''" "''Dune''"]
      delete_removes_book [OF d, of "Some ''5''" demo_int 5 "''u1''" "''Dune''"]
      b n c0 c5
    by simp
qed

section \<open>Validation of create and of update\<close>

text \<open>
  Claim C10. A body with a title whose authors and genres are arrays, one of them empty,
  passes the validation of PUT (which only asks for arrays) and fails the validation of
  POST, which answers without success and leaves the store as it was.
\<close>

theorem validation_asymmetry:
  assumes "truthy_param (title bd)" "isArray (authors bd)" "isArray (genres bd)"
    and "authors bd = JArr [] \<or> genres bd = JArr []"
  shows "put_validate bd = None
       \<and> post_validate bd =
           Some (if authors bd = JArr [] then Error ''At least one author required''
                 else Error ''At least one genre required'')
       \<and> snd (POST s u bd) = s \<and> \<not> success (fst (POST s u bd))"
  using assms
  by (cases "authors bd"; cases "genres bd")
     (auto simp: put_validate_def post_validate_def POST_def)

theorem validation_asymmetry_witness:
  "put_validate \<lparr>title = Some ''Dune'', authors = JArr [], genres = JArr [''Novel'']\<rparr> = None
   \<and> post_validate \<lparr>title = Some ''Dune'', authors = JArr [], genres = JArr [''Novel'']\<rparr> =
       Some (Error ''At least one author required'')
   \<and> snd (POST example_store ''u3''
            \<lparr>title = Some ''Dune'', authors = JArr [], genres = JArr [''Novel'']\<rparr>) = example_store"
  using validation_asymmetry
    [of "\<lparr>title = Some ''Dune'', authors = JArr [], genres = JArr [''Novel'']\<rparr>"
        example_store "''u3''"]
  by simp

section \<open>Search\<close>

lemma contains_iff: "contains s sub \<longleftrightarrow> sublist sub s"
  by (induction s) (auto simp: sublist_Cons_right)

lemma optional_not_Nil [simp]: "optional xs \<noteq> []"
  by (simp add: optional_def)

lemma Some_in_optional [simp]: "Some x \<in> set (optional xs) \<longleftrightarrow> x \<in> set xs"
  by (auto simp: optional_def)

lemma ex_in_optional: "\<exists>x. x \<in> set (optional xs)"
  by (cases xs) (auto simp: optional_def)

lemma set_collect [simp]: "set (collect xs) = {x. Some x \<in> set xs}"
  by (induction xs rule: collect.induct) auto

lemma rc_rows_set:
  "set [(b, a, g). b \<leftarrow> bs, a \<leftarrow> optional (A b), g \<leftarrow> optional (G b)] =
     {(b, a, g). b \<in> set bs \<and> a \<in> set (optional (A b)) \<and> g \<in> set (optional (G b))}"
  by auto

lemma rc_rows_fst:
  "fst ` set [(b, a, g). b \<leftarrow> bs, a \<leftarrow> optional (A b), g \<leftarrow> optional (G b)] = set bs"
proof -
  have "\<And>b. b \<in> set bs \<Longrightarrow> \<exists>a g. a \<in> set (optional (A b)) \<and> g \<in> set (optional (G b))"
    using ex_in_optional by metis
  then show ?thesis unfolding rc_rows_set by (auto simp: image_iff)
qed

lemma in_return_collect:
  "(b, bid, t, as, gs) \<in> set (return_collect p s bs) \<longleftrightarrow>
     b \<in> set bs \<and> (b, BookNode bid t) \<in> set (nodes s)
     \<and> as = remdups (collect [map_option p a. (b1, a, g) \<leftarrow>
               [(b, a, g). b \<leftarrow> bs, a \<leftarrow> optional (map snd (links Author s b)),
                  g \<leftarrow> optional (map snd (links Genre s b))], b1 = b])
     \<and> gs = remdups (collect [map_option p g. (b1, a, g) \<leftarrow>
               [(b, a, g). b \<leftarrow> bs, a \<leftarrow> optional (map snd (links Author s b)),
                  g \<leftarrow> optional (map snd (links Genre s b))], b1 = b])"
  unfolding return_collect_def Let_def
  apply (simp only: set_concat set_map set_remdups rc_rows_fst)
  apply (auto simp: in_book_nodes)
  done

text \<open>The rows of a book are the combinations of its authors and its genres; what is
  collected from them is every author and every genre.\<close>

lemma rc_collect_a:
  assumes "b \<in> set bs"
  shows "set (collect [map_option p a. (b1, a, g) \<leftarrow>
            [(b, a, g). b \<leftarrow> bs, a \<leftarrow> optional (A b), g \<leftarrow> optional (G b)], b1 = b])
         = p ` set (A b)"
proof -
  obtain g0 where g0: "g0 \<in> set (optional (G b))" using ex_in_optional by blast
  have "\<And>x. Some x \<in> set [map_option p a. (b1, a, g) \<leftarrow>
            [(b, a, g). b \<leftarrow> bs, a \<leftarrow> optional (A b), g \<leftarrow> optional (G b)], b1 = b]
        \<longleftrightarrow> x \<in> p ` set (A b)"
  proof
    fix x
    assume "Some x \<in> set [map_option p a. (b1, a, g) \<leftarrow>
            [(b, a, g). b \<leftarrow> bs, a \<leftarrow> optional (A b), g \<leftarrow> optional (G b)], b1 = b]"
    then obtain a where "a \<in> set (optional (A b))" "Some x = map_option p a"
      by (auto split: if_splits)
    then show "x \<in> p ` set (A b)" by (auto simp: map_option_case split: option.splits)
  next
    fix x assume "x \<in> p ` set (A b)"
    then obtain y where y: "y \<in> set (A b)" "x = p y" by auto
    then have "(b, Some y, g0) \<in> set [(b, a, g). b \<leftarrow> bs, a \<leftarrow> optional (A b), g \<leftarrow> optional (G b)]"
      using assms g0 unfolding rc_rows_set by simp
    then show "Some x \<in> set [map_option p a. (b1, a, g) \<leftarrow>
            [(b, a, g). b \<leftarrow> bs, a \<leftarrow> optional (A b), g \<leftarrow> optional (G b)], b1 = b]"
      using y(2) by (simp only: set_concat set_map) force
  qed
  then show ?thesis by (simp only: set_collect) blast
qed

lemma rc_collect_g:
  assumes "b \<in> set bs"
  shows "set (collect [map_option p g. (b1, a, g) \<leftarrow>
            [(b, a, g). b \<leftarrow> bs, a \<leftarrow> optional (A b), g \<leftarrow> optional (G b)], b1 = b])
         = p ` set (G b)"
proof -
  obtain a0 where a0: "a0 \<in> set (optional (A b))" using ex_in_optional by blast
  have "\<And>x. Some x \<in> set [map_option p g. (b1, a, g) \<leftarrow>
            [(b, a, g). b \<leftarrow> bs, a \<leftarrow> optional (A b), g \<leftarrow> optional (G b)], b1 = b]
        \<longleftrightarrow> x \<in> p ` set (G b)"
  proof
    fix x
    assume "Some x \<in> set [map_option p g. (b1, a, g) \<leftarrow>
            [(b, a, g). b \<leftarrow> bs, a \<leftarrow> optional (A b), g \<leftarrow> optional (G b)], b1 = b]"
    then obtain g where "g \<in> set (optional (G b))" "Some x = map_option p g"
      by (auto split: if_splits)
    then show "x \<in> p ` set (G b)" by (auto simp: map_option_case split: option.splits)
  next
    fix x assume "x \<in> p ` set (G b)"
    then obtain y where y: "y \<in> set (G b)" "x = p y" by auto
    then have "(b, a0, Some y) \<in> set [(b, a, g). b \<leftarrow> bs, a \<leftarrow> optional (A b), g \<leftarrow> optional (G b)]"
      using assms a0 unfolding rc_rows_set by simp
    then show "Some x \<in> set [map_option p g. (b1, a, g) \<leftarrow>
            [(b, a, g). b \<leftarrow> bs, a \<leftarrow> optional (A b), g \<leftarrow> optional (G b)], b1 = b]"
      using y(2) by (simp only: set_concat set_map) force
  qed
  then show ?thesis by (simp only: set_collect) blast
qed

lemma return_collect_sets:
  assumes "(b, bid, t, as, gs) \<in> set (return_collect p s bs)"
  shows "set as = p ` set (map snd (links Author s b))"
    "set gs = p ` set (map snd (links Genre s b))"
    "distinct as" "distinct gs" "b \<in> set bs" "(b, BookNode bid t) \<in> set (nodes s)"
  using assms unfolding in_return_collect
  by (simp_all only: set_remdups rc_collect_a rc_collect_g distinct_remdups)

lemma return_collect_complete:
  assumes "b \<in> set bs" "(b, BookNode bid t) \<in> set (nodes s)"
  shows "\<exists>as gs. (b, bid, t, as, gs) \<in> set (return_collect p s bs)"
  using assms unfolding in_return_collect by blast

lemma linked_names_alt: "linked_names k s b = snd ` set (map snd (links k s b))"
  by (force simp: linked_names_def image_iff)

lemma holds_AnyName:
  "holds s (b, bid, t) (AnyName k vs) \<longleftrightarrow>
     (\<exists>n \<in> linked_names k s b. \<exists>v \<in> set vs. sublist (toLower v) (toLower n))"
  unfolding linked_names_def holds.simps list_ex_iff contains_iff
  by (simp only: set_map bex_simps image_iff case_prod_beta Bex_def) metis

lemma listed_GET:
  "build_conditions neo4j_int q = Inr cs \<Longrightarrow>
   listed (GET neo4j_int s q) =
     map (\<lambda>(b, bid, t, as, gs).
                \<lparr>out_id = b, out_bookId = bid, out_title = t,
                 out_authors = map snd as, out_genres = map snd gs\<rparr>) (get_query s cs)"
  by (simp add: GET_def listed_def ok_def)

lemma get_query_rows:
  "get_query s cs =
     return_collect (\<lambda>a. a) s (map fst [b \<leftarrow> book_nodes s. \<forall>c \<in> set cs. holds s b c])"
  unfolding get_query_def Let_def by (cases cs) (simp_all add: list_all_iff)

lemma in_get_query:
  "(\<exists>as gs. (b, bid, t, as, gs) \<in> set (get_query s cs)) \<longleftrightarrow>
     (b, BookNode bid t) \<in> set (nodes s)
     \<and> (\<exists>bid' t'. (b, BookNode bid' t') \<in> set (nodes s) \<and> (\<forall>c \<in> set cs. holds s (b, bid', t') c))"
  unfolding get_query_rows in_return_collect
  by (force simp: in_book_nodes image_iff)

lemma build_conditions_Inr:
  assumes "build_conditions neo4j_int q = Inr cs"
  shows "cs = (if truthy_param (q_id q) then [IdEq (projr (neo4j_int (the (q_id q))))] else [])
            @ (if truthy_param (q_title q) then [TitleContains (the (q_title q))] else [])
            @ (if truthy_param (q_bookId q) then [BookIdEq (the (q_bookId q))] else [])
            @ (if q_author q \<noteq> [] then [AnyName Author (q_author q)] else [])
            @ (if q_genre q \<noteq> [] then [AnyName Genre (q_genre q)] else [])"
    and "truthy_param (q_id q) \<Longrightarrow> neo4j_int (the (q_id q)) = Inr (projr (neo4j_int (the (q_id q))))"
  using assms unfolding build_conditions_def
  by (auto split: if_splits sum.splits)

lemma all_conditions_hold:
  assumes "build_conditions neo4j_int q = Inr cs"
  shows "(\<forall>c \<in> set cs. holds s (b, bid, t) c) \<longleftrightarrow>
        ((truthy_param (q_id q) \<longrightarrow> neo4j_int (the (q_id q)) = Inr b)
      \<and> (truthy_param (q_title q) \<longrightarrow> sublist (toLower (the (q_title q))) (toLower t))
      \<and> (truthy_param (q_bookId q) \<longrightarrow> bid = the (q_bookId q))
      \<and> (q_author q \<noteq> [] \<longrightarrow>
           (\<exists>n \<in> linked_names Author s b. \<exists>v \<in> set (q_author q). sublist (toLower v) (toLower n)))
      \<and> (q_genre q \<noteq> [] \<longrightarrow>
           (\<exists>n \<in> linked_names Genre s b. \<exists>v \<in> set (q_genre q). sublist (toLower v) (toLower n))))"
    (is "_ \<longleftrightarrow> ?rhs")
proof -
  have id: "truthy_param (q_id q) \<Longrightarrow>
      holds s (b, bid, t) (IdEq (projr (neo4j_int (the (q_id q))))) \<longleftrightarrow> neo4j_int (the (q_id q)) = Inr b"
    using build_conditions_Inr(2)[OF assms] by (metis holds.simps(1) sum.sel(2))
  have one: "\<And>P x Q. (\<forall>c \<in> set (if P then [x] else []). Q c) \<longleftrightarrow> (P \<longrightarrow> Q x)"
    by simp
  have "(\<forall>c \<in> set cs. holds s (b, bid, t) c) \<longleftrightarrow>
        (truthy_param (q_id q) \<longrightarrow> holds s (b, bid, t) (IdEq (projr (neo4j_int (the (q_id q))))))
      \<and> (truthy_param (q_title q) \<longrightarrow> holds s (b, bid, t) (TitleContains (the (q_title q))))
      \<and> (truthy_param (q_bookId q) \<longrightarrow> holds s (b, bid, t) (BookIdEq (the (q_bookId q))))
      \<and> (q_author q \<noteq> [] \<longrightarrow> holds s (b, bid, t) (AnyName Author (q_author q)))
      \<and> (q_genre q \<noteq> [] \<longrightarrow> holds s (b, bid, t) (AnyName Genre (q_genre q)))"
    by (subst build_conditions_Inr(1)[OF assms]) (simp only: set_append ball_Un one)
  also have "\<dots> \<longleftrightarrow> ?rhs"
    using id by (simp only: holds_AnyName) (auto simp: contains_iff)
  finally show ?thesis .
qed

lemma GET_ok:
  assumes "GET neo4j_int s q = ok (Books out)"
  obtains cs where "build_conditions neo4j_int q = Inr cs" "out = listed (GET neo4j_int s q)"
  using assms by (auto simp: GET_def ok_def failure_def listed_def split: sum.splits)

lemma listed_ids:
  assumes "build_conditions neo4j_int q = Inr cs"
  shows "(\<exists>bk \<in> set (listed (GET neo4j_int s q)). out_id bk = b) \<longleftrightarrow>
         (\<exists>bid t. (b, BookNode bid t) \<in> set (nodes s) \<and> (\<forall>c \<in> set cs. holds s (b, bid, t) c))"
proof -
  have "(\<exists>bk \<in> set (listed (GET neo4j_int s q)). out_id bk = b) \<longleftrightarrow>
        (\<exists>bid t as gs. (b, bid, t, as, gs) \<in> set (get_query s cs))"
    unfolding listed_GET[OF assms] by (force simp: image_iff)
  also have "\<dots> \<longleftrightarrow> (\<exists>bid t. (b, BookNode bid t) \<in> set (nodes s) \<and> (\<forall>c \<in> set cs. holds s (b, bid, t) c))"
    using in_get_query[of b _ _ s cs] by blast
  finally show ?thesis .
qed

text \<open>
  Claim C5. For a search that succeeds, a book is listed exactly when the store has a
  book node of that identity for which every supplied filter holds: the title filter,
  when the lower-cased filter text is a contiguous part of the lower-cased title; the
  author (genre) filter, when some author (genre) linked to the book has a name whose
  lower-cased form contains the lower-cased form of some search term. The terms of one
  list are alternatives, the filters are conjoined.
\<close>

theorem search_match_semantics:
  assumes "GET neo4j_int s q = ok (Books out)"
  shows "(\<exists>bk \<in> set out. out_id bk = b) \<longleftrightarrow>
     (\<exists>bid t. (b, BookNode bid t) \<in> set (nodes s)
        \<and> (truthy_param (q_id q) \<longrightarrow> neo4j_int (the (q_id q)) = Inr b)
        \<and> (truthy_param (q_title q) \<longrightarrow> sublist (toLower (the (q_title q))) (toLower t))
        \<and> (truthy_param (q_bookId q) \<longrightarrow> bid = the (q_bookId q))
        \<and> (q_author q \<noteq> [] \<longrightarrow>
             (\<exists>n \<in> linked_names Author s b. \<exists>v \<in> set (q_author q). sublist (toLower v) (toLower n)))
        \<and> (q_genre q \<noteq> [] \<longrightarrow>
             (\<exists>n \<in> linked_names Genre s b. \<exists>v \<in> set (q_genre q). sublist (toLower v) (toLower n))))"
proof -
  from assms obtain cs where cs: "build_conditions neo4j_int q = Inr cs"
    and out: "out = listed (GET neo4j_int s q)" by (rule GET_ok)
  show ?thesis unfolding out listed_ids[OF cs] all_conditions_hold[OF cs] ..
qed

theorem search_match_semantics_witness:
  "GET demo_int example_store
      \<lparr>q_id = None, q_title = Some ''dU'', q_bookId = None, q_author = [''ank''], q_genre = []\<rparr> =
     ok (Books [\<lparr>out_id = 0, out_bookId = ''u1'', out_title = ''Dune'',
                 out_authors = [''Frank'', ''Shared''], out_genres = [''Novel'']\<rparr>])
   \<and> ((\<exists>bk \<in> set [\<lparr>out_id = 0, out_bookId = ''u1'', out_title = ''Dune'',
                 out_authors = [''Frank'', ''Shared''], out_genres = [''Novel'']\<rparr>].
          out_id bk = 0) \<longleftrightarrow>
       (\<exists>bid t. (0, BookNode bid t) \<in> set (nodes example_store)
          \<and> sublist (toLower ''dU'') (toLower t)
          \<and> (\<exists>n \<in> linked_names Author example_store 0.
                \<exists>v \<in> set [''ank'']. sublist (toLower v) (toLower n))))"
proof -
  have h: "GET demo_int example_store
      \<lparr>q_id = None, q_title = Some ''dU'', q_bookId = None, q_author = [''ank''], q_genre = []\<rparr> =
     ok (Books [\<lparr>out_id = 0, out_bookId = ''u1'', out_title = ''Dune'',
                 out_authors = [''Frank'', ''Shared''], out_genres = [''Novel'']\<rparr>])"
    by code_simp
  show ?thesis using search_match_semantics [OF h, of 0] h by simp
qed

lemma listed_all:
  assumes "build_conditions neo4j_int q = Inr []" "(b, BookNode bid t) \<in> set (nodes s)"
  shows "\<exists>bk \<in> set (listed (GET neo4j_int s q)). out_id bk = b \<and> out_bookId bk = bid \<and> out_title bk = t"
proof -
  have "b \<in> set (map fst (book_nodes s))" using assms(2) in_book_nodes by force
  then have "\<exists>as gs. (b, bid, t, as, gs) \<in> set (return_collect (\<lambda>a. a) s (map fst (book_nodes s)))"
    using assms(2) by (rule return_collect_complete)
  then obtain as gs where "(b, bid, t, as, gs) \<in> set (get_query s [])"
    unfolding get_query_def by auto
  then show ?thesis unfolding listed_GET[OF assms(1)] by force
qed

text \<open>
  Claim C4, as amended. A filter counts as supplied when its value is not empty: an id,
  title or bookId parameter that is present with the empty string adds no condition, like
  one that is absent. The query has exactly one condition for each supplied filter and
  none for the others; a book is listed exactly when all the conditions hold for it; with
  no supplied filter every book of the store is listed; an empty author or genre list
  adds no condition.
\<close>

theorem conditions_per_supplied_filter:
  assumes "build_conditions neo4j_int q = Inr cs"
  shows "length cs = supplied_filters q
       \<and> ((\<exists>v. IdEq v \<in> set cs) \<longleftrightarrow> truthy_param (q_id q))
       \<and> ((\<exists>v. TitleContains v \<in> set cs) \<longleftrightarrow> truthy_param (q_title q))
       \<and> ((\<exists>v. BookIdEq v \<in> set cs) \<longleftrightarrow> truthy_param (q_bookId q))
       \<and> ((\<exists>vs. AnyName Author vs \<in> set cs) \<longleftrightarrow> q_author q \<noteq> [])
       \<and> ((\<exists>vs. AnyName Genre vs \<in> set cs) \<longleftrightarrow> q_genre q \<noteq> [])
       \<and> ((\<exists>bk \<in> set (listed (GET neo4j_int s q)). out_id bk = b) \<longleftrightarrow>
            (\<exists>bid t. (b, BookNode bid t) \<in> set (nodes s) \<and> (\<forall>c \<in> set cs. holds s (b, bid, t) c)))
       \<and> (supplied_filters q = 0 \<and> (b, BookNode bid t) \<in> set (nodes s) \<longrightarrow>
            (\<exists>bk \<in> set (listed (GET neo4j_int s q)).
               out_id bk = b \<and> out_bookId bk = bid \<and> out_title bk = t))"
proof -
  note cs = build_conditions_Inr(1)[OF assms]
  have 1: "length cs = supplied_filters q" unfolding cs supplied_filters_def by simp
  have 2: "(\<exists>v. IdEq v \<in> set cs) \<longleftrightarrow> truthy_param (q_id q)"
    "(\<exists>v. TitleContains v \<in> set cs) \<longleftrightarrow> truthy_param (q_title q)"
    "(\<exists>v. BookIdEq v \<in> set cs) \<longleftrightarrow> truthy_param (q_bookId q)"
    "(\<exists>vs. AnyName Author vs \<in> set cs) \<longleftrightarrow> q_author q \<noteq> []"
    "(\<exists>vs. AnyName Genre vs \<in> set cs) \<longleftrightarrow> q_genre q \<noteq> []"
    unfolding cs by auto
  have 3: "supplied_filters q = 0 \<Longrightarrow> cs = []" using 1 by simp
  show ?thesis using 1 2 listed_ids[OF assms, of s b] listed_all[of neo4j_int q b bid t s] assms 3
    by blast
qed

theorem conditions_per_supplied_filter_witness:
  "build_conditions demo_int
      \<lparr>q_id = None, q_title = Some ''dU'', q_bookId = Some [], q_author = [''ank''], q_genre = []\<rparr> =
     Inr [TitleContains ''dU'', AnyName Author [''ank'']]
   \<and> length [TitleContains ''dU'', AnyName Author [''ank'']] =
       supplied_filters
         \<lparr>q_id = None, q_title = Some ''dU'', q_bookId = Some [], q_author = [''ank''], q_genre = []\<rparr>
   \<and> build_conditions demo_int
      \<lparr>q_id = None, q_title = None, q_bookId = None, q_author = [], q_genre = []\<rparr> = Inr []
   \<and> (\<exists>bk \<in> set (listed (GET demo_int example_store
          \<lparr>q_id = None, q_title = None, q_bookId = None, q_author = [], q_genre = []\<rparr>)).
         out_id bk = 4 \<and> out_bookId bk = ''u2'' \<and> out_title bk = ''Emma'')"
proof -
  have h1: "build_conditions demo_int
      \<lparr>q_id = None, q_title = Some ''dU'', q_bookId = Some [], q_author = [''ank''], q_genre = []\<rparr> =
     Inr [TitleContains ''dU'', AnyName Author [''ank'']]"
    by (simp add: build_conditions_def)
  have h2: "build_conditions demo_int
      \<lparr>q_id = None, q_title = None, q_bookId = None, q_author = [], q_genre = []\<rparr> = Inr []"
    by (simp add: build_conditions_def)
  have z: "supplied_filters
      \<lparr>q_id = None, q_title = None, q_bookId = None, q_author = [], q_genre = []\<rparr> = 0"
    by (simp add: supplied_filters_def)
  have n: "(4, BookNode ''u2'' ''Emma'') \<in> set (nodes example_store)"
    by (simp add: example_store_def)
  from conditions_per_supplied_filter [OF h1, of example_store 0 "''u1''" "''Dune''"]
  have a: "length [TitleContains ''dU'', AnyName Author [''ank'']] =
       supplied_filters
         \<lparr>q_id = None, q_title = Some ''dU'', q_bookId = Some [], q_author = [''ank''], q_genre = []\<rparr>"
    by blast
  from conditions_per_supplied_filter [OF h2, of example_store 4 "''u2''" "''Emma''"] z n
  have b: "\<exists>bk \<in> set (listed (GET demo_int example_store
          \<lparr>q_id = None, q_title = None, q_bookId = None, q_author = [], q_genre = []\<rparr>)).
         out_id bk = 4 \<and> out_bookId bk = ''u2'' \<and> out_title bk = ''Emma''"
    by blast
  show ?thesis using h1 h2 a b by blast
qed

text \<open>As the claim is written, with a filter counted as present whenever the parameter is
  there, it fails for a bookId parameter that is present and empty: the query gets no
  condition, and the search lists a book whose bookId is not the empty string.\<close>

theorem empty_bookId_adds_no_condition:
  "build_conditions demo_int
      \<lparr>q_id = None, q_title = None, q_bookId = Some [], q_author = [], q_genre = []\<rparr> = Inr []
   \<and> present_filters
      \<lparr>q_id = None, q_title = None, q_bookId = Some [], q_author = [], q_genre = []\<rparr> = 1
   \<and> map out_bookId (listed (GET demo_int example_store
      \<lparr>q_id = None, q_title = None, q_bookId = Some [], q_author = [], q_genre = []\<rparr>)) =
       [''u1'', ''u2'']"
proof -
  have "map out_bookId (listed (GET demo_int example_store
      \<lparr>q_id = None, q_title = None, q_bookId = Some [], q_author = [], q_genre = []\<rparr>)) =
       [''u1'', ''u2'']"
    by code_simp
  then show ?thesis by (simp add: build_conditions_def present_filters_def)
qed

section \<open>Writing clauses\<close>

lemma max_id_ge: "x \<in> set xs \<Longrightarrow> x \<le> max_id xs"
  by (induction xs) auto

lemma fresh_node_new: "(fresh_node s, nd) \<notin> set (nodes s)"
proof
  assume "(fresh_node s, nd) \<in> set (nodes s)"
  then have "fresh_node s \<in> set (map fst (nodes s))" by force
  from max_id_ge[OF this] show False by (simp add: fresh_node_def)
qed

lemma fresh_node_notin: "fresh_node s \<notin> fst ` set (nodes s)"
  using fresh_node_new by force

lemma fresh_rel_notin: "fresh_rel s \<notin> rid ` set (rels s)"
proof
  assume "fresh_rel s \<in> rid ` set (rels s)"
  then have "fresh_rel s \<in> set (map rid (rels s))" by simp
  from max_id_ge[OF this] show False by (simp add: fresh_rel_def)
qed

lemma merge_node_cases:
  assumes "merge_node k s n = (s', xs)"
  obtains (found) "s' = s" "xs \<noteq> []" "set xs = {i. (i, NameNode k n) \<in> set (nodes s)}"
  | (created) "\<forall>i. (i, NameNode k n) \<notin> set (nodes s)"
      "s' = s\<lparr>nodes := nodes s @ [(fresh_node s, NameNode k n)]\<rparr>" "xs = [fresh_node s]"
proof (cases "[i. (i, n') \<leftarrow> named k s, n' = n] = []")
  case True
  then have "\<forall>i. (i, n) \<notin> set (named k s)"
    by (auto simp: filter_empty_conv concat_eq_Nil_conv split: if_splits)
  then have "\<forall>i. (i, NameNode k n) \<notin> set (nodes s)" by (simp add: in_named)
  then show ?thesis using assms True created by (simp add: merge_node_def Let_def)
next
  case False
  have "set [i. (i, n') \<leftarrow> named k s, n' = n] = {i. (i, NameNode k n) \<in> set (nodes s)}"
    by (auto simp: in_named[symmetric])
  moreover have "merge_node k s n = (s, [i. (i, n') \<leftarrow> named k s, n' = n])"
    by (simp only: merge_node_def Let_def False if_False)
  ultimately show ?thesis using assms False found by simp
qed

lemma merge_rel_created:
  assumes "[r \<leftarrow> rels s. rtype r = rel_of k \<and> book_end k r = b \<and> other_end k r = x] = []"
  shows "merge_rel k s b x =
      (s\<lparr>rels := rels s @ [mk_rel k (fresh_rel s) b x]\<rparr>, [mk_rel k (fresh_rel s) b x])"
  unfolding merge_rel_def Let_def assms by simp

lemma merge_rel_found:
  assumes "[r \<leftarrow> rels s. rtype r = rel_of k \<and> book_end k r = b \<and> other_end k r = x] \<noteq> []"
  shows "merge_rel k s b x =
      (s, [r \<leftarrow> rels s. rtype r = rel_of k \<and> book_end k r = b \<and> other_end k r = x])"
  unfolding merge_rel_def Let_def using assms by (simp only: if_False)

lemma merge_rel_cases:
  assumes "merge_rel k s b x = (s', ms)"
  obtains (found) "s' = s" "ms \<noteq> []"
      "set ms = {r \<in> set (rels s). rtype r = rel_of k \<and> book_end k r = b \<and> other_end k r = x}"
  | (created) "\<forall>r \<in> set (rels s). \<not> (rtype r = rel_of k \<and> book_end k r = b \<and> other_end k r = x)"
      "s' = s\<lparr>rels := rels s @ [mk_rel k (fresh_rel s) b x]\<rparr>" "ms = [mk_rel k (fresh_rel s) b x]"
proof (cases "[r \<leftarrow> rels s. rtype r = rel_of k \<and> book_end k r = b \<and> other_end k r = x] = []")
  case True
  have 1: "\<forall>r \<in> set (rels s). \<not> (rtype r = rel_of k \<and> book_end k r = b \<and> other_end k r = x)"
    using True unfolding filter_empty_conv by blast
  from merge_rel_created[OF True] assms
  have 2: "s' = s\<lparr>rels := rels s @ [mk_rel k (fresh_rel s) b x]\<rparr>" "ms = [mk_rel k (fresh_rel s) b x]"
    by simp_all
  show ?thesis by (rule created[OF 1 2])
next
  case False
  from merge_rel_found[OF False] assms have "s' = s"
    and ms: "ms = [r \<leftarrow> rels s. rtype r = rel_of k \<and> book_end k r = b \<and> other_end k r = x]"
    by simp_all
  show ?thesis
  proof (rule found)
    show "s' = s" by fact
    show "ms \<noteq> []" unfolding ms by (rule False)
    show "set ms = {r \<in> set (rels s). rtype r = rel_of k \<and> book_end k r = b \<and> other_end k r = x}"
      unfolding ms by (rule set_filter)
  qed
qed

lemma mk_rel_simps [simp]:
  "rtype (mk_rel k i b x) = rel_of k" "book_end k (mk_rel k i b x) = b"
  "other_end k (mk_rel k i b x) = x" "rid (mk_rel k i b x) = i"
  by (cases k; simp)+

text \<open>Invariants of a writing clause, and what its rows are.\<close>

lemma clause_inv:
  assumes "clause f s xs = (s', ys)" "P s"
    and "\<And>s x s1 ys1. P s \<Longrightarrow> x \<in> set xs \<Longrightarrow> f s x = (s1, ys1) \<Longrightarrow> P s1"
  shows "P s'"
  using assms
proof (induction xs arbitrary: s ys)
  case Nil then show ?case by simp
next
  case (Cons x xs)
  obtain s1 ys1 where f: "f s x = (s1, ys1)" by (cases "f s x")
  obtain zs where c: "clause f s1 xs = (s', zs)"
    using Cons.prems(1) f by (auto split: prod.splits)
  have "P s1" using Cons.prems(3)[of s x s1 ys1] Cons.prems(2) f by simp
  show ?case
  proof (rule Cons.IH[OF c \<open>P s1\<close>])
    show "P sb" if "P sa" "x' \<in> set xs" "f sa x' = (sb, zs')" for sa x' sb zs'
      using Cons.prems(3)[of sa x' sb zs'] that by simp
  qed
qed

lemma clause_rows:
  assumes "clause f s xs = (s', ys)"
    and step: "\<And>s x s1 ys1 y. x \<in> set xs \<Longrightarrow> f s x = (s1, ys1) \<Longrightarrow> y \<in> set ys1 \<Longrightarrow> Q s1 x y"
    and stable: "\<And>s x' s1 ys1 x y. x' \<in> set xs \<Longrightarrow> f s x' = (s1, ys1) \<Longrightarrow> Q s x y \<Longrightarrow> Q s1 x y"
    and "y \<in> set ys"
  shows "\<exists>x \<in> set xs. Q s' x y"
  using assms
proof (induction xs arbitrary: s ys)
  case Nil then show ?case by simp
next
  case (Cons x xs)
  obtain s1 ys1 where f: "f s x = (s1, ys1)" by (cases "f s x")
  obtain zs where c: "clause f s1 xs = (s', zs)" and eq: "ys = ys1 @ zs"
    using Cons.prems(1) f by (auto split: prod.splits)
  have stab: "Q s' xa ya" if "Q s1 xa ya" for xa ya
  proof (rule clause_inv[OF c, where P = "\<lambda>s. Q s xa ya"])
    show "Q s1 xa ya" by fact
    show "Q sb xa ya" if "Q sa xa ya" "x' \<in> set xs" "f sa x' = (sb, zs')" for sa x' sb zs'
      using Cons.prems(3)[of x' sa sb zs' xa ya] that by simp
  qed
  show ?case
  proof (cases "y \<in> set ys1")
    case True
    then have "Q s1 x y" using Cons.prems(2)[OF _ f] by simp
    then show ?thesis using stab eq by auto
  next
    case False
    then have "y \<in> set zs" using Cons.prems(4) eq by simp
    have "\<exists>x \<in> set xs. Q s' x y"
    proof (rule Cons.IH[OF c _ _ \<open>y \<in> set zs\<close>])
      show "Q s1 x y" if "x \<in> set xs" "f s x = (s1, ys1)" "y \<in> set ys1" for s x s1 ys1 y
        using Cons.prems(2)[of x s s1 ys1 y] that by simp
      show "Q s1 x y" if "x' \<in> set xs" "f s x' = (s1, ys1)" "Q s x y" for s x' s1 ys1 x y
        using Cons.prems(3)[of x' s s1 ys1 x y] that by simp
    qed
    then show ?thesis by auto
  qed
qed

lemma clause_cover:
  assumes "clause f s xs = (s', ys)"
    and step: "\<And>s x s1 ys1. x \<in> set xs \<Longrightarrow> f s x = (s1, ys1) \<Longrightarrow> \<exists>y \<in> set ys1. Q s1 x y"
    and stable: "\<And>s x' s1 ys1 x y. x' \<in> set xs \<Longrightarrow> f s x' = (s1, ys1) \<Longrightarrow> Q s x y \<Longrightarrow> Q s1 x y"
    and "x \<in> set xs"
  shows "\<exists>y \<in> set ys. Q s' x y"
  using assms
proof (induction xs arbitrary: s ys)
  case Nil then show ?case by simp
next
  case (Cons x0 xs)
  obtain s1 ys1 where f: "f s x0 = (s1, ys1)" by (cases "f s x0")
  obtain zs where c: "clause f s1 xs = (s', zs)" and eq: "ys = ys1 @ zs"
    using Cons.prems(1) f by (auto split: prod.splits)
  have stab: "Q s' xa ya" if "Q s1 xa ya" for xa ya
  proof (rule clause_inv[OF c, where P = "\<lambda>s. Q s xa ya"])
    show "Q s1 xa ya" by fact
    show "Q sb xa ya" if "Q sa xa ya" "x' \<in> set xs" "f sa x' = (sb, zs')" for sa x' sb zs'
      using Cons.prems(3)[of x' sa sb zs' xa ya] that by simp
  qed
  show ?case
  proof (cases "x = x0")
    case True
    then obtain y where "y \<in> set ys1" "Q s1 x y" using Cons.prems(2)[OF _ f] by auto
    then show ?thesis using stab eq by auto
  next
    case False
    then have "x \<in> set xs" using Cons.prems(4) by simp
    have "\<exists>y \<in> set zs. Q s' x y"
    proof (rule Cons.IH[OF c _ _ \<open>x \<in> set xs\<close>])
      show "\<exists>y \<in> set ys1. Q s1 x y" if "x \<in> set xs" "f s x = (s1, ys1)" for s x s1 ys1
        using Cons.prems(2)[of x s s1 ys1] that by simp
      show "Q s1 x y" if "x' \<in> set xs" "f s x' = (s1, ys1)" "Q s x y" for s x' s1 ys1 x y
        using Cons.prems(3)[of x' s s1 ys1 x y] that by simp
    qed
    then show ?thesis unfolding eq by auto
  qed
qed

lemma named_append:
  "named k' (s\<lparr>nodes := nodes s @ [(i, NameNode k n)]\<rparr>) = named k' s @ (if k' = k then [(i, n)] else [])"
  by (simp add: named_def)

lemma named_rels_update [simp]: "named k (s\<lparr>rels := rs\<rparr>) = named k s"
  by (simp add: named_def)

lemma book_nodes_rels_update [simp]: "book_nodes (s\<lparr>rels := rs\<rparr>) = book_nodes s"
  by (simp add: book_nodes_def)

lemma merge_node_row_step:
  assumes "merge_node_row k s (r, n) = (s1, ys1)"
  shows "rels s1 = rels s" "prefix (nodes s) (nodes s1)"
    "set (nodes s1) \<subseteq> set (nodes s) \<union> {(fresh_node s, NameNode k n)}"
    "ys1 \<noteq> []" "\<forall>y \<in> set ys1. fst y = r \<and> (snd y, NameNode k n) \<in> set (nodes s1)"
    "distinct (map fst (nodes s)) \<Longrightarrow> distinct (map fst (nodes s1))"
    "unique_names k' s \<Longrightarrow> unique_names k' s1"
proof -
  obtain xs where m: "merge_node k s n = (s1, xs)" and ys1: "ys1 = map (Pair r) xs"
    using assms by (auto simp: merge_node_row_def split: prod.splits)
  from m show "rels s1 = rels s" by (cases rule: merge_node_cases) auto
  from m show "prefix (nodes s) (nodes s1)" by (cases rule: merge_node_cases) auto
  from m show "set (nodes s1) \<subseteq> set (nodes s) \<union> {(fresh_node s, NameNode k n)}"
    by (cases rule: merge_node_cases) auto
  from m show "ys1 \<noteq> []" unfolding ys1 by (cases rule: merge_node_cases) auto
  from m show "\<forall>y \<in> set ys1. fst y = r \<and> (snd y, NameNode k n) \<in> set (nodes s1)"
    unfolding ys1 by (cases rule: merge_node_cases) auto
  from m show "distinct (map fst (nodes s)) \<Longrightarrow> distinct (map fst (nodes s1))"
    using fresh_node_notin[of s] by (cases rule: merge_node_cases) auto
  from m show "unique_names k' s \<Longrightarrow> unique_names k' s1"
  proof (cases rule: merge_node_cases)
    case found then show "unique_names k' s \<Longrightarrow> unique_names k' s1" by simp
  next
    case created
    assume u: "unique_names k' s"
    have "n \<notin> snd ` set (named k s)" using created(1) by (auto simp: in_named)
    then show "unique_names k' s1" using u unfolding created(2) unique_names_def named_append
      by auto
  qed
qed

lemma rel_key:
  "rtype r = rel_of k \<Longrightarrow> rtype r' = rel_of k \<Longrightarrow>
   (src r, dst r) = (src r', dst r') \<longleftrightarrow> book_end k r = book_end k r' \<and> other_end k r = other_end k r'"
  by (cases k) auto

lemma merge_rel_row_step:
  assumes "merge_rel_row k bof s (r, x) = (s1, ys1)"
  shows "nodes s1 = nodes s" "prefix (rels s) (rels s1)"
    "set (rels s1) \<subseteq> set (rels s) \<union> {mk_rel k (fresh_rel s) (bof r) x}"
    "ys1 \<noteq> []" "set ys1 = {(r, x)}"
    "\<exists>rl \<in> set (rels s1). rtype rl = rel_of k \<and> book_end k rl = bof r \<and> other_end k rl = x"
    "unique_rels s \<Longrightarrow> unique_rels s1"
proof -
  obtain ms where m: "merge_rel k s (bof r) x = (s1, ms)" and ys1: "ys1 = map (\<lambda>m. (r, x)) ms"
    using assms by (auto simp: merge_rel_row_def split: prod.splits)
  from m show "nodes s1 = nodes s" by (cases rule: merge_rel_cases) auto
  from m show "prefix (rels s) (rels s1)" by (cases rule: merge_rel_cases) auto
  from m show "set (rels s1) \<subseteq> set (rels s) \<union> {mk_rel k (fresh_rel s) (bof r) x}"
    by (cases rule: merge_rel_cases) auto
  from m have ne: "ms \<noteq> []" by (cases rule: merge_rel_cases) auto
  then show "ys1 \<noteq> []" unfolding ys1 by simp
  from ne show "set ys1 = {(r, x)}" unfolding ys1 by (cases ms) auto
  from m show "\<exists>rl \<in> set (rels s1). rtype rl = rel_of k \<and> book_end k rl = bof r \<and> other_end k rl = x"
  proof (cases rule: merge_rel_cases)
    case found
    then obtain rl where "rl \<in> set ms" by (cases ms) auto
    then show ?thesis using found by auto
  next
    case created
    then show ?thesis by simp
  qed
  from m show "unique_rels s \<Longrightarrow> unique_rels s1"
  proof (cases rule: merge_rel_cases)
    case found then show "unique_rels s \<Longrightarrow> unique_rels s1" by simp
  next
    case created
    assume u: "unique_rels s"
    have "(rtype (mk_rel k (fresh_rel s) (bof r) x), src (mk_rel k (fresh_rel s) (bof r) x), dst (mk_rel k (fresh_rel s) (bof r) x))
          \<notin> (\<lambda>r. (rtype r, src r, dst r)) ` set (rels s)"
    proof
      assume "(rtype (mk_rel k (fresh_rel s) (bof r) x), src (mk_rel k (fresh_rel s) (bof r) x), dst (mk_rel k (fresh_rel s) (bof r) x))
          \<in> (\<lambda>r. (rtype r, src r, dst r)) ` set (rels s)"
      then obtain r' where r': "r' \<in> set (rels s)" "rtype r' = rel_of k"
        "(src r', dst r') = (src (mk_rel k (fresh_rel s) (bof r) x), dst (mk_rel k (fresh_rel s) (bof r) x))"
        by auto
      from rel_key[OF r'(2), of "mk_rel k (fresh_rel s) (bof r) x"] r'(3)
      have "book_end k r' = bof r \<and> other_end k r' = x" by simp
      with created(1) r' show False by blast
    qed
    then show "unique_rels s1" using u unfolding created(2) unique_rels_def by simp
  qed
qed

lemma node_clause:
  assumes c: "clause (merge_node_row k) s rows1 = (s1, rows2)"
  shows "rels s1 = rels s" "prefix (nodes s) (nodes s1)"
    "\<forall>x \<in> set (nodes s1). x \<in> set (nodes s) \<or> (\<exists>n \<in> snd ` set rows1. snd x = NameNode k n)"
    "distinct (map fst (nodes s)) \<Longrightarrow> distinct (map fst (nodes s1))"
    "unique_names k' s \<Longrightarrow> unique_names k' s1"
    "\<And>r x. (r, x) \<in> set rows2 \<Longrightarrow> \<exists>n. (r, n) \<in> set rows1 \<and> (x, NameNode k n) \<in> set (nodes s1)"
    "\<And>r n. (r, n) \<in> set rows1 \<Longrightarrow> \<exists>x. (r, x) \<in> set rows2 \<and> (x, NameNode k n) \<in> set (nodes s1)"
proof -
  show "rels s1 = rels s"
  proof (rule clause_inv[OF c, where P = "\<lambda>t. rels t = rels s"])
    show "rels t1 = rels s" if "rels t = rels s" "x \<in> set rows1" "merge_node_row k t x = (t1, ys)"
      for t x t1 ys
      using merge_node_row_step(1)[of k t "fst x" "snd x" t1 ys] that by simp
  qed simp
  show "prefix (nodes s) (nodes s1)"
  proof (rule clause_inv[OF c, where P = "\<lambda>t. prefix (nodes s) (nodes t)"])
    show "prefix (nodes s) (nodes t1)"
      if "prefix (nodes s) (nodes t)" "x \<in> set rows1" "merge_node_row k t x = (t1, ys)"
      for t x t1 ys
      using merge_node_row_step(2)[of k t "fst x" "snd x" t1 ys] that
      by (auto intro: prefix_order.trans)
  qed simp
  show "\<forall>x \<in> set (nodes s1). x \<in> set (nodes s) \<or> (\<exists>n \<in> snd ` set rows1. snd x = NameNode k n)"
  proof (rule clause_inv[OF c, where P = "\<lambda>t. \<forall>x \<in> set (nodes t). x \<in> set (nodes s) \<or> (\<exists>n \<in> snd ` set rows1. snd x = NameNode k n)"])
    show "\<forall>x \<in> set (nodes t1). x \<in> set (nodes s) \<or> (\<exists>n \<in> snd ` set rows1. snd x = NameNode k n)"
      if "\<forall>x \<in> set (nodes t). x \<in> set (nodes s) \<or> (\<exists>n \<in> snd ` set rows1. snd x = NameNode k n)"
        "x \<in> set rows1" "merge_node_row k t x = (t1, ys)"
      for t x t1 ys
    proof
      fix y assume "y \<in> set (nodes t1)"
      then have "y \<in> set (nodes t) \<or> y = (fresh_node t, NameNode k (snd x))"
        using merge_node_row_step(3)[of k t "fst x" "snd x" t1 ys] that(3) by auto
      then show "y \<in> set (nodes s) \<or> (\<exists>n \<in> snd ` set rows1. snd y = NameNode k n)"
        using that(1,2) by auto
    qed
  qed simp
  show "distinct (map fst (nodes s)) \<Longrightarrow> distinct (map fst (nodes s1))"
  proof (rule clause_inv[OF c, where P = "\<lambda>t. distinct (map fst (nodes t))"])
    show "distinct (map fst (nodes t1))"
      if "distinct (map fst (nodes t))" "x \<in> set rows1" "merge_node_row k t x = (t1, ys)"
      for t x t1 ys
      using merge_node_row_step(6)[of k t "fst x" "snd x" t1 ys] that by simp
  qed
  show "unique_names k' s \<Longrightarrow> unique_names k' s1"
  proof (rule clause_inv[OF c, where P = "\<lambda>t. unique_names k' t"])
    show "unique_names k' t1"
      if "unique_names k' t" "x \<in> set rows1" "merge_node_row k t x = (t1, ys)"
      for t x t1 ys
      using merge_node_row_step(7)[of k t "fst x" "snd x" t1 ys k'] that by simp
  qed
  have stable: "nd \<in> set (nodes t1)"
    if "merge_node_row k t x' = (t1, ys)" "nd \<in> set (nodes t)"
    for t x' t1 ys nd
    using merge_node_row_step(2)[of k t "fst x'" "snd x'" t1 ys] that
    by (auto simp: prefix_def)
  show "\<exists>n. (r, n) \<in> set rows1 \<and> (x, NameNode k n) \<in> set (nodes s1)" if "(r, x) \<in> set rows2" for r x
  proof -
    have "\<exists>row \<in> set rows1. fst (r, x) = fst row \<and> (snd (r, x), NameNode k (snd row)) \<in> set (nodes s1)"
    proof (rule clause_rows[OF c, where Q = "\<lambda>t row y. fst y = fst row \<and> (snd y, NameNode k (snd row)) \<in> set (nodes t)"])
      show "fst y = fst row \<and> (snd y, NameNode k (snd row)) \<in> set (nodes t1)"
        if "row \<in> set rows1" "merge_node_row k t row = (t1, ys)" "y \<in> set ys" for t row t1 ys y
        using merge_node_row_step(5)[of k t "fst row" "snd row" t1 ys] that by simp
      show "fst y = fst row \<and> (snd y, NameNode k (snd row)) \<in> set (nodes t1)"
        if "x' \<in> set rows1" "merge_node_row k t x' = (t1, ys)"
          "fst y = fst row \<and> (snd y, NameNode k (snd row)) \<in> set (nodes t)" for t x' t1 ys row y
        using stable[OF that(2)] that(3) by simp
      show "(r, x) \<in> set rows2" by fact
    qed
    then show ?thesis by force
  qed
  show "\<exists>x. (r, x) \<in> set rows2 \<and> (x, NameNode k n) \<in> set (nodes s1)" if "(r, n) \<in> set rows1" for r n
  proof -
    have "\<exists>y \<in> set rows2. fst y = fst (r, n) \<and> (snd y, NameNode k (snd (r, n))) \<in> set (nodes s1)"
    proof (rule clause_cover[OF c, where Q = "\<lambda>t row y. fst y = fst row \<and> (snd y, NameNode k (snd row)) \<in> set (nodes t)"])
      show "\<exists>y \<in> set ys. fst y = fst row \<and> (snd y, NameNode k (snd row)) \<in> set (nodes t1)"
        if "row \<in> set rows1" "merge_node_row k t row = (t1, ys)" for t row t1 ys
        using merge_node_row_step(4,5)[of k t "fst row" "snd row" t1 ys] that
        by (cases ys) auto
      show "fst y = fst row \<and> (snd y, NameNode k (snd row)) \<in> set (nodes t1)"
        if "x' \<in> set rows1" "merge_node_row k t x' = (t1, ys)"
          "fst y = fst row \<and> (snd y, NameNode k (snd row)) \<in> set (nodes t)" for t x' t1 ys row y
        using stable[OF that(2)] that(3) by simp
      show "(r, n) \<in> set rows1" by fact
    qed
    then show ?thesis by force
  qed
qed

lemma rel_clause:
  assumes c: "clause (merge_rel_row k bof) s rows2 = (s2, rows3)"
  shows "nodes s2 = nodes s" "prefix (rels s) (rels s2)"
    "\<forall>r \<in> set (rels s2). r \<in> set (rels s) \<or>
       (\<exists>row \<in> set rows2. rtype r = rel_of k \<and> book_end k r = bof (fst row) \<and> other_end k r = snd row)"
    "unique_rels s \<Longrightarrow> unique_rels s2"
    "set rows3 = set rows2"
    "\<And>row. row \<in> set rows2 \<Longrightarrow>
       \<exists>rl \<in> set (rels s2). rtype rl = rel_of k \<and> book_end k rl = bof (fst row) \<and> other_end k rl = snd row"
proof -
  show "nodes s2 = nodes s"
  proof (rule clause_inv[OF c, where P = "\<lambda>t. nodes t = nodes s"])
    show "nodes t1 = nodes s" if "nodes t = nodes s" "x \<in> set rows2" "merge_rel_row k bof t x = (t1, ys)"
      for t x t1 ys
      using merge_rel_row_step(1)[of k bof t "fst x" "snd x" t1 ys] that by simp
  qed simp
  show "prefix (rels s) (rels s2)"
  proof (rule clause_inv[OF c, where P = "\<lambda>t. prefix (rels s) (rels t)"])
    show "prefix (rels s) (rels t1)"
      if "prefix (rels s) (rels t)" "x \<in> set rows2" "merge_rel_row k bof t x = (t1, ys)"
      for t x t1 ys
      using merge_rel_row_step(2)[of k bof t "fst x" "snd x" t1 ys] that
      by (auto intro: prefix_order.trans)
  qed simp
  show "\<forall>r \<in> set (rels s2). r \<in> set (rels s) \<or>
       (\<exists>row \<in> set rows2. rtype r = rel_of k \<and> book_end k r = bof (fst row) \<and> other_end k r = snd row)"
  proof (rule clause_inv[OF c, where P = "\<lambda>t. \<forall>r \<in> set (rels t). r \<in> set (rels s) \<or>
       (\<exists>row \<in> set rows2. rtype r = rel_of k \<and> book_end k r = bof (fst row) \<and> other_end k r = snd row)"])
    show "\<forall>r \<in> set (rels t1). r \<in> set (rels s) \<or>
       (\<exists>row \<in> set rows2. rtype r = rel_of k \<and> book_end k r = bof (fst row) \<and> other_end k r = snd row)"
      if "\<forall>r \<in> set (rels t). r \<in> set (rels s) \<or>
       (\<exists>row \<in> set rows2. rtype r = rel_of k \<and> book_end k r = bof (fst row) \<and> other_end k r = snd row)"
        "x \<in> set rows2" "merge_rel_row k bof t x = (t1, ys)"
      for t x t1 ys
    proof
      fix r assume "r \<in> set (rels t1)"
      then have "r \<in> set (rels t) \<or> r = mk_rel k (fresh_rel t) (bof (fst x)) (snd x)"
        using merge_rel_row_step(3)[of k bof t "fst x" "snd x" t1 ys] that(3) by auto
      then show "r \<in> set (rels s) \<or>
       (\<exists>row \<in> set rows2. rtype r = rel_of k \<and> book_end k r = bof (fst row) \<and> other_end k r = snd row)"
        using that(1,2) by auto
    qed
  qed simp
  show "unique_rels s \<Longrightarrow> unique_rels s2"
  proof (rule clause_inv[OF c, where P = unique_rels])
    show "unique_rels t1"
      if "unique_rels t" "x \<in> set rows2" "merge_rel_row k bof t x = (t1, ys)"
      for t x t1 ys
      using merge_rel_row_step(7)[of k bof t "fst x" "snd x" t1 ys] that by simp
  qed
  have sub: "y \<in> set rows2" if "y \<in> set rows3" for y
  proof -
    have "\<exists>x \<in> set rows2. y = x"
    proof (rule clause_rows[OF c, where Q = "\<lambda>t x y. y = x"])
      show "y = x" if "x \<in> set rows2" "merge_rel_row k bof t x = (t1, ys)" "y \<in> set ys" for t x t1 ys y
        using merge_rel_row_step(5)[of k bof t "fst x" "snd x" t1 ys] that by simp
      show "y \<in> set rows3" by fact
    qed
    then show ?thesis by simp
  qed
  have sup: "x \<in> set rows3" if "x \<in> set rows2" for x
  proof -
    have "\<exists>y \<in> set rows3. y = x"
    proof (rule clause_cover[OF c, where Q = "\<lambda>t x y. y = x"])
      show "\<exists>y \<in> set ys. y = x" if "x \<in> set rows2" "merge_rel_row k bof t x = (t1, ys)" for t x t1 ys
        using merge_rel_row_step(5)[of k bof t "fst x" "snd x" t1 ys] that by simp
      show "x \<in> set rows2" by fact
    qed
    then show ?thesis by simp
  qed
  show "set rows3 = set rows2" using sub sup by blast
  show "\<exists>rl \<in> set (rels s2). rtype rl = rel_of k \<and> book_end k rl = bof (fst row) \<and> other_end k rl = snd row"
    if "row \<in> set rows2" for row
  proof -
    have "\<exists>y \<in> set rows3. \<exists>rl \<in> set (rels s2). rtype rl = rel_of k \<and> book_end k rl = bof (fst row) \<and> other_end k rl = snd row"
    proof (rule clause_cover[OF c, where Q = "\<lambda>t x y. \<exists>rl \<in> set (rels t). rtype rl = rel_of k \<and> book_end k rl = bof (fst x) \<and> other_end k rl = snd x"])
      show "\<exists>y \<in> set ys. \<exists>rl \<in> set (rels t1). rtype rl = rel_of k \<and> book_end k rl = bof (fst x) \<and> other_end k rl = snd x"
        if "x \<in> set rows2" "merge_rel_row k bof t x = (t1, ys)" for t x t1 ys
        using merge_rel_row_step(4,6)[of k bof t "fst x" "snd x" t1 ys] that
        by (cases ys) auto
      show "\<exists>rl \<in> set (rels t1). rtype rl = rel_of k \<and> book_end k rl = bof (fst x) \<and> other_end k rl = snd x"
        if "x' \<in> set rows2" "merge_rel_row k bof t x' = (t1, ys)"
          "\<exists>rl \<in> set (rels t). rtype rl = rel_of k \<and> book_end k rl = bof (fst x) \<and> other_end k rl = snd x"
        for t x' t1 ys x and y :: "'a \<times> int"
        using merge_rel_row_step(2)[of k bof t "fst x'" "snd x'" t1 ys] that(2,3)
        by (auto simp: prefix_def)
      show "row \<in> set rows2" by fact
    qed
    then show ?thesis by blast
  qed
qed

lemma unwind_rows1: "set [(r, n). r \<leftarrow> rows, n \<leftarrow> names] = set rows \<times> set names"
  by auto

lemma unwind_merge_facts:
  assumes u: "unwind_merge k bof s rows names = (s', rows')"
  shows "prefix (nodes s) (nodes s')"
    "\<forall>x \<in> set (nodes s'). x \<in> set (nodes s) \<or> (\<exists>n \<in> set names. snd x = NameNode k n)"
    "prefix (rels s) (rels s')"
    "\<forall>r \<in> set (rels s'). r \<in> set (rels s) \<or>
       (rtype r = rel_of k \<and> book_end k r \<in> bof ` set rows \<and>
        (\<exists>n \<in> set names. (other_end k r, NameNode k n) \<in> set (nodes s')))"
    "distinct (map fst (nodes s)) \<Longrightarrow> distinct (map fst (nodes s'))"
    "unique_names k' s \<Longrightarrow> unique_names k' s'"
    "unique_rels s \<Longrightarrow> unique_rels s'"
    "\<And>r n. r \<in> set rows \<Longrightarrow> n \<in> set names \<Longrightarrow>
       \<exists>rl \<in> set (rels s'). \<exists>x. rtype rl = rel_of k \<and> book_end k rl = bof r \<and> other_end k rl = x
          \<and> (x, NameNode k n) \<in> set (nodes s')"
    "fst ` set rows' = (if names = [] then {} else set rows)"
proof -
  obtain s1 rows2 where c1: "clause (merge_node_row k) s [(r, n). r \<leftarrow> rows, n \<leftarrow> names] = (s1, rows2)"
    and c2: "clause (merge_rel_row k bof) s1 rows2 = (s', rows')"
    using u unfolding unwind_merge_def Let_def by (auto split: prod.splits)
  note n = node_clause[OF c1] and r = rel_clause[OF c2]
  show "prefix (nodes s) (nodes s')" using n(2) r(1) by simp
  show "\<forall>x \<in> set (nodes s'). x \<in> set (nodes s) \<or> (\<exists>n \<in> set names. snd x = NameNode k n)"
    using n(3) unfolding r(1) unwind_rows1 by fastforce
  show "prefix (rels s) (rels s')" using r(2) n(1) by simp
  show "\<forall>r \<in> set (rels s'). r \<in> set (rels s) \<or>
       (rtype r = rel_of k \<and> book_end k r \<in> bof ` set rows \<and>
        (\<exists>n \<in> set names. (other_end k r, NameNode k n) \<in> set (nodes s')))"
  proof
    fix rl assume "rl \<in> set (rels s')"
    with r(3) consider "rl \<in> set (rels s1)"
      | row where "row \<in> set rows2" "rtype rl = rel_of k" "book_end k rl = bof (fst row)" "other_end k rl = snd row"
      by blast
    then show "rl \<in> set (rels s) \<or>
       (rtype rl = rel_of k \<and> book_end k rl \<in> bof ` set rows \<and>
        (\<exists>n \<in> set names. (other_end k rl, NameNode k n) \<in> set (nodes s')))"
    proof cases
      case 1 then show ?thesis using n(1) by simp
    next
      case 2
      from n(6)[of "fst row" "snd row"] 2(1) obtain nm where
        "(fst row, nm) \<in> set rows \<times> set names" "(snd row, NameNode k nm) \<in> set (nodes s1)"
        unfolding unwind_rows1 by auto
      then show ?thesis using 2 r(1) by auto
    qed
  qed
  show "distinct (map fst (nodes s)) \<Longrightarrow> distinct (map fst (nodes s'))" using n(4) r(1) by simp
  show "unique_names k' s \<Longrightarrow> unique_names k' s'"
    using n(5)[of k'] r(1) by (simp add: unique_names_def named_def)
  show "unique_rels s \<Longrightarrow> unique_rels s'"
    using r(4) n(1) by (simp add: unique_rels_def)
  show "\<exists>rl \<in> set (rels s'). \<exists>x. rtype rl = rel_of k \<and> book_end k rl = bof r \<and> other_end k rl = x
          \<and> (x, NameNode k n) \<in> set (nodes s')" if "r \<in> set rows" "n \<in> set names" for r n
  proof -
    from that have "(r, n) \<in> set [(r, n). r \<leftarrow> rows, n \<leftarrow> names]" unfolding unwind_rows1 by simp
    from n(7)[OF this] obtain x where x: "(r, x) \<in> set rows2" "(x, NameNode k n) \<in> set (nodes s1)"
      by blast
    from r(6)[OF x(1)] x(2) r(1) show ?thesis by auto
  qed
  show "fst ` set rows' = (if names = [] then {} else set rows)"
  proof -
    have "fst ` set rows2 = fst ` set [(r, n). r \<leftarrow> rows, n \<leftarrow> names]"
      using n(6,7) by (force simp: image_iff)
    then show ?thesis unfolding r(5) unwind_rows1 by (cases names) auto
  qed
qed

lemma set_title_rels [simp]: "rels (set_title s b t) = rels s"
  by (simp add: set_title_def)

lemma set_title_ids [simp]: "map fst (nodes (set_title s b t)) = map fst (nodes s)"
  by (auto simp: set_title_def split: node.splits)

lemma set_title_named [simp]: "named k (set_title s b t) = named k s"
proof -
  have "\<And>ns. [(i, n). (i, NameNode k' n) \<leftarrow> map (\<lambda>(i, n). case n of
                        BookNode bid old \<Rightarrow> if i = b then (i, BookNode bid t) else (i, n)
                      | NameNode k nm \<Rightarrow> (i, n)) ns, k' = k]
      = [(i, n). (i, NameNode k' n) \<leftarrow> ns, k' = k]"
    subgoal for ns by (induction ns) (auto split: node.splits)
    done
  then show ?thesis by (simp add: named_def set_title_def)
qed

lemma set_title_links [simp]: "links k (set_title s b t) b' = links k s b'"
  by (simp only: links_def set_title_named set_title_rels)

lemma set_title_book:
  "(i, BookNode bid t') \<in> set (nodes (set_title s b t)) \<longleftrightarrow>
     (\<exists>t0. (i, BookNode bid t0) \<in> set (nodes s) \<and> t' = (if i = b then t else t0))"
  by (force simp: set_title_def image_iff split: node.splits if_splits)

lemma set_title_name:
  "(i, NameNode k n) \<in> set (nodes (set_title s b t)) \<longleftrightarrow> (i, NameNode k n) \<in> set (nodes s)"
  by (force simp: set_title_def image_iff split: node.splits if_splits)

lemma foldl_set_title:
  "rels (foldl (\<lambda>s b. set_title s b t) s bs) = rels s"
  "map fst (nodes (foldl (\<lambda>s b. set_title s b t) s bs)) = map fst (nodes s)"
  "named k (foldl (\<lambda>s b. set_title s b t) s bs) = named k s"
  "links k (foldl (\<lambda>s b. set_title s b t) s bs) b' = links k s b'"
  "(i, NameNode k n) \<in> set (nodes (foldl (\<lambda>s b. set_title s b t) s bs)) \<longleftrightarrow> (i, NameNode k n) \<in> set (nodes s)"
  by (induction bs arbitrary: s) (simp_all add: set_title_name)

lemma foldl_set_title_book:
  "(i, BookNode bid t') \<in> set (nodes (foldl (\<lambda>s b. set_title s b t) s bs)) \<longleftrightarrow>
     (\<exists>t0. (i, BookNode bid t0) \<in> set (nodes s) \<and> t' = (if i \<in> set bs then t else t0))"
proof (induction bs arbitrary: s)
  case Nil then show ?case by simp
next
  case (Cons b bs)
  show ?case unfolding foldl_Cons Cons.IH set_title_book by auto
qed

lemma foldl_delete_rel:
  "foldl delete_rel s ros = s\<lparr>rels := [x \<leftarrow> rels s. rid x \<notin> rid ` set (collect ros)]\<rparr>"
proof (induction ros arbitrary: s)
  case Nil then show ?case by simp
next
  case (Cons ro ros)
  show ?case
  proof (cases ro)
    case None then show ?thesis using Cons.IH by (simp add: delete_rel_def)
  next
    case (Some r)
    then show ?thesis using Cons.IH[of "delete_rel s (Some r)"]
      by (simp add: delete_rel_def)
  qed
qed

lemma delete_rows_fst:
  "map fst [(b, r). b \<leftarrow> bs, r \<leftarrow> optional (f b)] = concat (map (\<lambda>b. replicate (length (optional (f b))) b) bs)"
  by (induction bs) (simp_all add: map_replicate_const comp_def)

lemma delete_rows_set: "set (map fst [(b, r). b \<leftarrow> bs, r \<leftarrow> optional (f b)]) = set bs"
proof -
  have "\<And>b. b \<in> set bs \<Longrightarrow> \<exists>r. r \<in> set (optional (f b))" using ex_in_optional by metis
  then show ?thesis by (force simp: image_iff)
qed

lemma delete_rows_collect:
  "set (collect (map snd [(b, r). b \<leftarrow> bs, r \<leftarrow> optional (f b)])) = (\<Union>b \<in> set bs. set (f b))"
  by (auto simp: image_iff) 

lemma in_linked_names:
  "n \<in> linked_names k s b \<longleftrightarrow>
     (\<exists>r \<in> set (rels s). rtype r = rel_of k \<and> book_end k r = b \<and>
        (other_end k r, NameNode k n) \<in> set (nodes s))"
proof
  assume "n \<in> linked_names k s b"
  then obtain x where x: "x \<in> set (links k s b)" "n = (\<lambda>(r, a, n). n) x"
    unfolding linked_names_def by auto
  obtain r a n' where "x = (r, a, n')" by (cases x)
  with x have "(r, a, n) \<in> set (links k s b)" by simp
  then show "\<exists>r \<in> set (rels s). rtype r = rel_of k \<and> book_end k r = b \<and>
        (other_end k r, NameNode k n) \<in> set (nodes s)"
    unfolding in_links by blast
next
  assume "\<exists>r \<in> set (rels s). rtype r = rel_of k \<and> book_end k r = b \<and>
        (other_end k r, NameNode k n) \<in> set (nodes s)"
  then obtain r where "(r, other_end k r, n) \<in> set (links k s b)" unfolding in_links by blast
  then show "n \<in> linked_names k s b" unfolding linked_names_def by force
qed

lemma linked_names_empty: "linked_names k s b = {} \<longleftrightarrow> links k s b = []"
  by (simp add: linked_names_def)

lemma distinct_ids_same:
  "distinct (map fst ns) \<Longrightarrow> (i, x) \<in> set ns \<Longrightarrow> (i, y) \<in> set ns \<Longrightarrow> x = y"
  by (meson eq_key_imp_eq_value)

lemma rel_of_inj: "rel_of k' = rel_of k \<longleftrightarrow> k' = k"
  by (cases k; cases k') auto

lemma unwind_merge_Nil_rows [simp]: "unwind_merge k bof s [] names = (s, [])"
  by (simp add: unwind_merge_def)

lemma concat_map_Nil: "concat (map (\<lambda>r. []) rows) = []"
  by (induction rows) auto

lemma unwind_merge_Nil_names [simp]: "unwind_merge k bof s rows [] = (s, [])"
  by (simp add: unwind_merge_def concat_map_Nil)

lemma unwind_merge_linked:
  assumes u: "unwind_merge k bof s rows names = (s', rows')"
  shows "distinct (map fst (nodes s)) \<Longrightarrow> linked_names k s' b \<subseteq> linked_names k s b \<union> set names"
    and "b \<in> bof ` set rows \<Longrightarrow> set names \<subseteq> linked_names k s' b"
    and "k' \<noteq> k \<Longrightarrow> linked_names k' s' b = linked_names k' s b"
    and "nd \<in> set (nodes s) \<Longrightarrow> nd \<in> set (nodes s')"
proof -
  note f = unwind_merge_facts[OF u]
  show old: "nd \<in> set (nodes s')" if "nd \<in> set (nodes s)" for nd
    using f(1) that by (auto simp: prefix_def)
  have oldr: "r \<in> set (rels s')" if "r \<in> set (rels s)" for r
    using f(3) that by (auto simp: prefix_def)
  show "linked_names k s' b \<subseteq> linked_names k s b \<union> set names" if d: "distinct (map fst (nodes s))"
  proof
    fix n assume "n \<in> linked_names k s' b"
    then obtain r where r: "r \<in> set (rels s')" "rtype r = rel_of k" "book_end k r = b"
      "(other_end k r, NameNode k n) \<in> set (nodes s')" unfolding in_linked_names by blast
    note d' = f(5)[OF d]
    show "n \<in> linked_names k s b \<union> set names"
    proof (cases "(other_end k r, NameNode k n) \<in> set (nodes s)")
      case False
      with f(2) r(4) show ?thesis by fastforce
    next
      case True
      show ?thesis
      proof (cases "r \<in> set (rels s)")
        case True
        with \<open>(other_end k r, NameNode k n) \<in> set (nodes s)\<close> r
        have "n \<in> linked_names k s b" unfolding in_linked_names by blast
        then show ?thesis by simp
      next
        case False
        with f(4) r(1) obtain n' where "n' \<in> set names" "(other_end k r, NameNode k n') \<in> set (nodes s')"
          by blast
        with distinct_ids_same[OF d' r(4) this(2)] show ?thesis by simp
      qed
    qed
  qed
  show "set names \<subseteq> linked_names k s' b" if "b \<in> bof ` set rows"
  proof
    fix n assume n: "n \<in> set names"
    from that obtain row where "row \<in> set rows" "b = bof row" by blast
    from f(8)[OF this(1) n] this(2) show "n \<in> linked_names k s' b"
      unfolding in_linked_names by blast
  qed
  show "linked_names k' s' b = linked_names k' s b" if "k' \<noteq> k"
  proof (rule set_eqI, rule iffI)
    fix n assume "n \<in> linked_names k' s' b"
    then obtain r where r: "r \<in> set (rels s')" "rtype r = rel_of k'" "book_end k' r = b"
      "(other_end k' r, NameNode k' n) \<in> set (nodes s')" unfolding in_linked_names by blast
    from f(4) r(1,2) that have "r \<in> set (rels s)" by (auto simp: rel_of_inj)
    moreover from f(2) r(4) that have "(other_end k' r, NameNode k' n) \<in> set (nodes s)" by fastforce
    ultimately show "n \<in> linked_names k' s b" using r unfolding in_linked_names by blast
  next
    fix n assume "n \<in> linked_names k' s b"
    then show "n \<in> linked_names k' s' b" unfolding in_linked_names using old oldr by blast
  qed
qed

section \<open>Update\<close>

lemma put_detach_facts:
  assumes "put_detach k s bs = (s', bs')"
  shows "nodes s' = nodes s" "set bs' = set bs"
    "rels s' = [x \<leftarrow> rels s. rid x \<notin> rid ` (\<Union>b \<in> set bs. set (map fst (links k s b)))]"
proof -
  from assms have s': "s' = foldl delete_rel s (map snd [(b, r). b \<leftarrow> bs, r \<leftarrow> optional (map fst (links k s b))])"
    and bs': "bs' = map fst [(b, r). b \<leftarrow> bs, r \<leftarrow> optional (map fst (links k s b))]"
    by (simp_all add: put_detach_def Let_def)
  show "nodes s' = nodes s" unfolding s' foldl_delete_rel by simp
  show "set bs' = set bs" unfolding bs' by (rule delete_rows_set)
  show "rels s' = [x \<leftarrow> rels s. rid x \<notin> rid ` (\<Union>b \<in> set bs. set (map fst (links k s b)))]"
    unfolding s' foldl_delete_rel delete_rows_collect by simp
qed

lemma put_detach_links:
  assumes "put_detach k s bs = (s', bs')"
  shows "set (links k' s' b) \<subseteq> set (links k' s b)"
    and "b \<in> set bs \<Longrightarrow> links k s' b = []"
    and "unique_rels s \<Longrightarrow> unique_rels s'"
proof -
  note f = put_detach_facts[OF assms]
  show sub: "set (links k' s' b) \<subseteq> set (links k' s b)" for k' b
  proof
    fix x assume "x \<in> set (links k' s' b)"
    moreover obtain r a n where "x = (r, a, n)" by (cases x)
    ultimately show "x \<in> set (links k' s b)" by (simp add: in_links f(1) f(3))
  qed
  show "links k s' b = []" if "b \<in> set bs"
  proof (rule ccontr)
    assume "links k s' b \<noteq> []"
    then obtain x where x: "x \<in> set (links k s' b)" by (cases "links k s' b") auto
    obtain r a n where xe: "x = (r, a, n)" by (cases x)
    from x sub have "x \<in> set (links k s b)" by blast
    then have "r \<in> (\<Union>b \<in> set bs. set (map fst (links k s b)))" using that xe by force
    moreover have "r \<in> set (rels s')" using x xe in_links by simp
    ultimately show False unfolding f(3) by auto
  qed
  show "unique_rels s \<Longrightarrow> unique_rels s'"
    unfolding unique_rels_def f(3) by (rule distinct_map_filter)
qed

lemma return_collect_Nil [simp]: "return_collect p s [] = []"
  by (simp add: return_collect_def)

lemma put_query_missing:
  assumes "\<forall>bid t0. (i, BookNode bid t0) \<notin> set (nodes s)"
  shows "put_query s i t as gs = (s, [])"
  using match_book_none[OF assms]
  by (simp add: put_query_def put_detach_def)

lemma put_query_facts:
  assumes d: "distinct (map fst (nodes s))"
    and b: "(i, BookNode bid t0) \<in> set (nodes s)"
    and q: "put_query s i t as gs = (s', records)"
  shows "(i, BookNode bid t) \<in> set (nodes s')"
    and "linked_names Author s' i = set as"
    and "linked_names Genre s' i = (if as = [] then {} else set gs)"
    and "(x, NameNode k n) \<in> set (nodes s) \<Longrightarrow> (x, NameNode k n) \<in> set (nodes s')"
    and "records = [] \<longleftrightarrow> as = [] \<or> gs = []"
    and "rec \<in> set records \<Longrightarrow>
           \<exists>as' gs'. rec = (i, bid, t, as', gs') \<and> set as' = set as \<and> set gs' = set gs
              \<and> distinct as' \<and> distinct gs'"
    and "distinct (map fst (nodes s'))"
proof -
  let ?s1 = "foldl (\<lambda>s b. set_title s b t) s (match_book s i)"
  have bs0: "match_book s i = [i]" by (rule match_book_one[OF d b])
  obtain s2 bs1 where p1: "put_detach Author ?s1 [i] = (s2, bs1)" by (cases "put_detach Author ?s1 [i]")
  obtain s3 bs2 where p2: "put_detach Genre s2 bs1 = (s3, bs2)" by (cases "put_detach Genre s2 bs1")
  obtain s4 rows3 where u1: "unwind_merge Author (\<lambda>b. b) s3 bs2 as = (s4, rows3)"
    by (cases "unwind_merge Author (\<lambda>b. b) s3 bs2 as")
  obtain s5 rows4 where u2: "unwind_merge Genre (\<lambda>b. b) s4 (map fst rows3) gs = (s5, rows4)"
    by (cases "unwind_merge Genre (\<lambda>b. b) s4 (map fst rows3) gs")
  from q p1 p2 u1 u2 have s': "s' = s5" and rec: "records = return_collect snd s5 (map fst rows4)"
    by (auto simp: put_query_def Let_def bs0)
  note f1 = put_detach_facts[OF p1] and l1 = put_detach_links[OF p1]
  note f2 = put_detach_facts[OF p2] and l2 = put_detach_links[OF p2]
  note m1 = unwind_merge_facts[OF u1] and n1 = unwind_merge_linked[OF u1]
  note m2 = unwind_merge_facts[OF u2] and n2 = unwind_merge_linked[OF u2]
  have bs1: "set bs1 = {i}" using f1(2) by simp
  have bs2: "set bs2 = {i}" using f2(2) bs1 by simp
  have nodes3: "nodes s3 = nodes ?s1" using f1(1) f2(1) by simp
  have d3: "distinct (map fst (nodes s3))" unfolding nodes3 bs0 using d by simp
  have d4: "distinct (map fst (nodes s4))" by (rule m1(5)[OF d3])
  show d5: "distinct (map fst (nodes s'))" unfolding s' by (rule m2(5)[OF d4])
  have la3: "links Author s3 i = []"
  proof -
    have "links Author s2 i = []" using l1(2)[of i] by simp
    with l2(1)[of Author i] show ?thesis by simp
  qed
  have lg3: "links Genre s3 i = []" using l2(2)[of i] bs1 by simp
  have book3: "(i, BookNode bid t) \<in> set (nodes s3)"
    unfolding nodes3 bs0 using b by (simp add: set_title_book) blast
  have book5: "(i, BookNode bid t) \<in> set (nodes s5)" by (rule n2(4)[OF n1(4)[OF book3]])
  then show "(i, BookNode bid t) \<in> set (nodes s')" unfolding s' .
  show "(x, NameNode k n) \<in> set (nodes s')" if "(x, NameNode k n) \<in> set (nodes s)"
  proof -
    from that have "(x, NameNode k n) \<in> set (nodes s3)" unfolding nodes3 bs0 by (simp add: set_title_name)
    then show ?thesis unfolding s' by (rule n2(4)[OF n1(4)])
  qed
  have a4: "linked_names Author s4 i = set as"
  proof
    show "linked_names Author s4 i \<subseteq> set as"
      using n1(1)[OF d3, of i] la3 by (simp add: linked_names_def)
    show "set as \<subseteq> linked_names Author s4 i" using n1(2)[of i] bs2 by simp
  qed
  have g4: "linked_names Genre s4 i = {}"
    using n1(3)[of Genre i] lg3 by (simp add: linked_names_def)
  show a5: "linked_names Author s' i = set as" unfolding s' using n2(3)[of Author i] a4 by simp
  have rows3: "fst ` set rows3 = (if as = [] then {} else {i})" using m1(9) bs2 by simp
  show g5: "linked_names Genre s' i = (if as = [] then {} else set gs)"
  proof (cases "as = []")
    case True
    then have "rows3 = []" using rows3 by simp
    then have "s5 = s4" using u2 by simp
    then show ?thesis unfolding s' using g4 True by simp
  next
    case False
    then have i: "i \<in> (\<lambda>b. b) ` set (map fst rows3)" using rows3 by simp
    have "linked_names Genre s5 i = set gs"
    proof
      show "linked_names Genre s5 i \<subseteq> set gs" using n2(1)[OF d4, of i] g4 by simp
      show "set gs \<subseteq> linked_names Genre s5 i" by (rule n2(2)[OF i])
    qed
    then show ?thesis unfolding s' using False by simp
  qed
  have rows4: "fst ` set rows4 = (if as = [] \<or> gs = [] then {} else {i})"
    using m2(9) rows3 by auto
  show "records = [] \<longleftrightarrow> as = [] \<or> gs = []"
  proof
    assume "records = []"
    show "as = [] \<or> gs = []"
    proof (rule ccontr)
      assume "\<not> (as = [] \<or> gs = [])"
      then have "i \<in> set (map fst rows4)" using rows4 by simp
      from return_collect_complete[OF this book5, of snd] \<open>records = []\<close> rec show False by simp
    qed
  next
    assume "as = [] \<or> gs = []"
    then have "rows4 = []" using rows4 by auto
    then show "records = []" unfolding rec by simp
  qed
  show "\<exists>as' gs'. rec = (i, bid, t, as', gs') \<and> set as' = set as \<and> set gs' = set gs
              \<and> distinct as' \<and> distinct gs'" if "rec \<in> set records"
  proof -
    obtain b' bid' t' as' gs' where r: "rec = (b', bid', t', as', gs')" by (cases rec)
    note rs = return_collect_sets[OF that[unfolded r rec]]
    from rs(5) rows4 have ne: "as \<noteq> []" "gs \<noteq> []" "b' = i" by (auto split: if_splits)
    from distinct_ids_same[OF d5[unfolded s'] rs(6)[unfolded ne(3)] book5]
    have "bid' = bid" "t' = t" by simp_all
    moreover have "set as' = set as" using rs(1) a5 unfolding s' ne(3) linked_names_alt by simp
    moreover have "set gs' = set gs" using rs(2) g5 ne(1) unfolding s' ne(3) linked_names_alt by simp
    ultimately show ?thesis using r ne(3) rs(3,4) by simp
  qed
qed

lemma PUT_success:
  assumes "PUT neo4j_int s idParam bd = (r, s')" "status r = 200"
  obtains i rec rest where "truthy_param idParam" "put_validate bd = None"
    "neo4j_int (the idParam) = Inr i"
    "put_query s i (the (title bd)) (elements (authors bd)) (elements (genres bd)) = (s', rec # rest)"
    "r = (case rec of (b, bid, t, as, gs) \<Rightarrow>
            ok (Updated \<lparr>out_id = b, out_bookId = bid, out_title = t, out_authors = as, out_genres = gs\<rparr>))"
  using assms unfolding PUT_def
  by (auto simp: failure_def split: if_splits option.splits sum.splits prod.splits list.splits)

lemma PUT_query:
  assumes "truthy_param idParam" "put_validate bd = None" "neo4j_int (the idParam) = Inr i"
    and "put_query s i (the (title bd)) (elements (authors bd)) (elements (genres bd)) = (s', records)"
  shows "snd (PUT neo4j_int s idParam bd) = s'"
    and "records = [] \<Longrightarrow> fst (PUT neo4j_int s idParam bd) = failure 404 ''Book not found''"
  using assms unfolding PUT_def by (auto split: list.splits)

text \<open>
  Claim C1. In a store whose node identities are distinct, after a PUT that succeeds
  (status 200) the names of the authors linked to the book by WROTE relationships are
  exactly the supplied authors, and the names of the genres linked by IN_GENRE
  relationships exactly the supplied genres: a relationship to an author or genre that is
  not in the new lists does not survive. Every author and genre node of the old store is
  still there, the book carries the new title, and the response lists the supplied names.
\<close>

theorem update_replaces_relationships:
  assumes "distinct (map fst (nodes s))"
    and "PUT neo4j_int s idParam bd = (r, s')" and "status r = 200"
  shows "\<exists>i bid. neo4j_int (the idParam) = Inr i
      \<and> (i, BookNode bid (the (title bd))) \<in> set (nodes s')
      \<and> linked_names Author s' i = set (elements (authors bd))
      \<and> linked_names Genre s' i = set (elements (genres bd))
      \<and> (\<forall>x k n. (x, NameNode k n) \<in> set (nodes s) \<longrightarrow> (x, NameNode k n) \<in> set (nodes s'))
      \<and> (\<exists>as' gs'. r = ok (Updated \<lparr>out_id = i, out_bookId = bid, out_title = the (title bd),
                                     out_authors = as', out_genres = gs'\<rparr>)
            \<and> set as' = set (elements (authors bd)) \<and> set gs' = set (elements (genres bd)))"
proof -
  from assms(2,3) obtain i rec rest where p: "neo4j_int (the idParam) = Inr i"
    and q: "put_query s i (the (title bd)) (elements (authors bd)) (elements (genres bd)) = (s', rec # rest)"
    and r: "r = (case rec of (b, bid, t, as, gs) \<Rightarrow>
            ok (Updated \<lparr>out_id = b, out_bookId = bid, out_title = t, out_authors = as, out_genres = gs\<rparr>))"
    by (rule PUT_success)
  have "\<exists>bid t0. (i, BookNode bid t0) \<in> set (nodes s)"
    using put_query_missing[of i s] q by fastforce
  then obtain bid t0 where b: "(i, BookNode bid t0) \<in> set (nodes s)" by blast
  note f = put_query_facts[OF assms(1) b q]
  from f(5) have ne: "elements (authors bd) \<noteq> []" "elements (genres bd) \<noteq> []" by simp_all
  from f(6)[of rec] obtain as' gs' where rec: "rec = (i, bid, the (title bd), as', gs')"
    "set as' = set (elements (authors bd))" "set gs' = set (elements (genres bd))" by auto
  show ?thesis
    using p f(1,2,3,4) ne r rec by (intro exI[of _ i] exI[of _ bid]) auto
qed

theorem update_replaces_relationships_witness:
  "status (fst (PUT demo_int example_store (Some ''0'')
      \<lparr>title = Some ''Dune II'', authors = JArr [''Brian''], genres = JArr [''Novel'', ''Saga'']\<rparr>)) = 200
   \<and> (1, NameNode Author ''Frank'') \<in> set (nodes example_store)
   \<and> (1, NameNode Author ''Frank'') \<in> set (nodes (snd (PUT demo_int example_store (Some ''0'')
            \<lparr>title = Some ''Dune II'', authors = JArr [''Brian''], genres = JArr [''Novel'', ''Saga'']\<rparr>)))
   \<and> (\<exists>i bid. demo_int (the (Some ''0'')) = Inr i
      \<and> (i, BookNode bid ''Dune II'') \<in> set (nodes (snd (PUT demo_int example_store (Some ''0'')
            \<lparr>title = Some ''Dune II'', authors = JArr [''Brian''], genres = JArr [''Novel'', ''Saga'']\<rparr>)))
      \<and> linked_names Author (snd (PUT demo_int example_store (Some ''0'')
            \<lparr>title = Some ''Dune II'', authors = JArr [''Brian''], genres = JArr [''Novel'', ''Saga'']\<rparr>)) i
          = set [''Brian'']
      \<and> linked_names Genre (snd (PUT demo_int example_store (Some ''0'')
            \<lparr>title = Some ''Dune II'', authors = JArr [''Brian''], genres = JArr [''Novel'', ''Saga'']\<rparr>)) i
          = set [''Novel'', ''Saga''])"
proof -
  define bd where
    "bd = \<lparr>title = Some ''Dune II'', authors = JArr [''Brian''], genres = JArr [''Novel'', ''Saga'']\<rparr>"
  define r where "r = fst (PUT demo_int example_store (Some ''0'') bd)"
  define s where "s = snd (PUT demo_int example_store (Some ''0'') bd)"
  have d: "distinct (map fst (nodes example_store))" by (simp add: example_store_def)
  have f: "(1, NameNode Author ''Frank'') \<in> set (nodes example_store)" by (simp add: example_store_def)
  have st: "status r = 200" unfolding r_def bd_def by code_simp
  have pr: "PUT demo_int example_store (Some ''0'') bd = (r, s)" unfolding r_def s_def by simp
  have bdf: "the (title bd) = ''Dune II''" "elements (authors bd) = [''Brian'']"
    "elements (genres bd) = [''Novel'', ''Saga'']" unfolding bd_def by simp_all
  from update_replaces_relationships [OF d pr st, unfolded bdf] f
  have a: "(1, NameNode Author ''Frank'') \<in> set (nodes s)"
    and b: "\<exists>i bid. demo_int (the (Some ''0'')) = Inr i
      \<and> (i, BookNode bid ''Dune II'') \<in> set (nodes s)
      \<and> linked_names Author s i = set [''Brian'']
      \<and> linked_names Genre s i = set [''Novel'', ''Saga'']"
    by blast+
  show ?thesis using st f a b unfolding r_def s_def bd_def by (intro conjI)
qed

text \<open>
  Claim C3. For a book that exists, a PUT whose authors list or genres list is the empty
  array passes the validation, and the handler answers 404 \<^verbatim>\<open>Book not found\<close>, although
  the query has written: the book carries the new title, its old relationships are
  deleted, so that it is linked to no genre and to no author but the supplied ones (to
  none when the authors list is the empty one).
\<close>

theorem update_with_empty_list_reports_not_found:
  assumes "distinct (map fst (nodes s))" "(i, BookNode bid t0) \<in> set (nodes s)"
    and "truthy_param idParam" "neo4j_int (the idParam) = Inr i" "truthy_param (title bd)"
    and "authors bd = JArr as" "genres bd = JArr gs" "as = [] \<or> gs = []"
  shows "put_validate bd = None
     \<and> fst (PUT neo4j_int s idParam bd) = failure 404 ''Book not found''
     \<and> (i, BookNode bid (the (title bd))) \<in> set (nodes (snd (PUT neo4j_int s idParam bd)))
     \<and> linked_names Author (snd (PUT neo4j_int s idParam bd)) i = set as
     \<and> linked_names Genre (snd (PUT neo4j_int s idParam bd)) i = {}"
proof -
  have v: "put_validate bd = None" using assms(5,6,7) by (simp add: put_validate_def)
  obtain s' records where q: "put_query s i (the (title bd)) (elements (authors bd)) (elements (genres bd)) = (s', records)"
    by (cases "put_query s i (the (title bd)) (elements (authors bd)) (elements (genres bd))")
  note f = put_query_facts[OF assms(1,2) q]
  note p = PUT_query[where neo4j_int = neo4j_int, OF assms(3) v assms(4) q]
  have "records = []" using f(5) assms(6,7,8) by simp
  moreover have "linked_names Genre s' i = {}" using f(3) assms(6,7,8) by auto
  ultimately show ?thesis using v p f(1,2) assms(6) by simp
qed

theorem update_with_empty_list_reports_not_found_witness:
  "put_validate \<lparr>title = Some ''Dune II'', authors = JArr [], genres = JArr [''Novel'']\<rparr> = None
   \<and> fst (PUT demo_int example_store (Some ''0'')
        \<lparr>title = Some ''Dune II'', authors = JArr [], genres = JArr [''Novel'']\<rparr>) =
       failure 404 ''Book not found''
   \<and> (0, BookNode ''u1'' ''Dune II'') \<in> set (nodes (snd (PUT demo_int example_store (Some ''0'')
        \<lparr>title = Some ''Dune II'', authors = JArr [], genres = JArr [''Novel'']\<rparr>)))
   \<and> linked_names Author (snd (PUT demo_int example_store (Some ''0'')
        \<lparr>title = Some ''Dune II'', authors = JArr [], genres = JArr [''Novel'']\<rparr>)) 0 = {}
   \<and> linked_names Genre (snd (PUT demo_int example_store (Some ''0'')
        \<lparr>title = Some ''Dune II'', authors = JArr [], genres = JArr [''Novel'']\<rparr>)) 0 = {}"
proof -
  have d: "distinct (map fst (nodes example_store))" by (simp add: example_store_def)
  have b: "(0, BookNode ''u1'' ''Dune'') \<in> set (nodes example_store)"
    by (simp add: example_store_def)
  have c: "demo_int (the (Some ''0'')) = Inr 0" by (simp add: demo_int_def)
  from update_with_empty_list_reports_not_found
    [where neo4j_int = demo_int and idParam = "Some ''0''"
       and bd = "\<lparr>title = Some ''Dune II'', authors = JArr [], genres = JArr [''Novel'']\<rparr>"
       and as = "[]" and gs = "[''Novel'']", OF d b _ c]
  show ?thesis by simp
qed

lemma put_without_id:
  "\<not> truthy_param idParam \<Longrightarrow> PUT neo4j_int s idParam bd = (failure 400 ''Missing required id'', s)"
  by (simp add: PUT_def)

lemma put_unknown_book:
  assumes "truthy_param idParam" "put_validate bd = None" "neo4j_int (the idParam) = Inr i"
    and "\<forall>bid t0. (i, BookNode bid t0) \<notin> set (nodes s)"
  shows "PUT neo4j_int s idParam bd = (failure 404 ''Book not found'', s)"
  using assms(1,2,3) put_query_missing[OF assms(4)] by (simp add: PUT_def)

text \<open>
  Claim C2 fails on the code for an existing book and an empty authors array: the handler
  answers 404 \<^verbatim>\<open>Book not found\<close> and the store has changed (new title, relationships of
  the book deleted).
\<close>

theorem update_not_found_for_existing_book:
  "(0, BookNode ''u1'' ''Dune'') \<in> set (nodes example_store)
   \<and> PUT demo_int example_store (Some ''0'')
       \<lparr>title = Some ''Dune II'', authors = JArr [], genres = JArr [''Novel'']\<rparr> =
     (failure 404 ''Book not found'',
      \<lparr>nodes = [(0, BookNode ''u1'' ''Dune II''), (1, NameNode Author ''Frank''),
                (2, NameNode Author ''Shared''), (3, NameNode Genre ''Novel''),
                (4, BookNode ''u2'' ''Emma''), (5, NameNode Genre ''Classic'')],
       rels = [\<lparr>rid = 3, rtype = WROTE, src = 2, dst = 4\<rparr>,
               \<lparr>rid = 4, rtype = IN_GENRE, src = 4, dst = 3\<rparr>,
               \<lparr>rid = 5, rtype = IN_GENRE, src = 4, dst = 5\<rparr>]\<rparr>)"
proof -
  have "PUT demo_int example_store (Some ''0'')
       \<lparr>title = Some ''Dune II'', authors = JArr [], genres = JArr [''Novel'']\<rparr> =
     (failure 404 ''Book not found'',
      \<lparr>nodes = [(0, BookNode ''u1'' ''Dune II''), (1, NameNode Author ''Frank''),
                (2, NameNode Author ''Shared''), (3, NameNode Genre ''Novel''),
                (4, BookNode ''u2'' ''Emma''), (5, NameNode Genre ''Classic'')],
       rels = [\<lparr>rid = 3, rtype = WROTE, src = 2, dst = 4\<rparr>,
               \<lparr>rid = 4, rtype = IN_GENRE, src = 4, dst = 3\<rparr>,
               \<lparr>rid = 5, rtype = IN_GENRE, src = 4, dst = 5\<rparr>]\<rparr>)"
    by code_simp
  then show ?thesis by (simp add: example_store_def)
qed

section \<open>Stores that the handlers reach\<close>

lemma filter_distinct_key:
  "distinct (map f xs) \<Longrightarrow> v \<in> set xs \<Longrightarrow> [y \<leftarrow> xs. f y = f v] = [v]"
proof (induction xs)
  case Nil then show ?case by simp
next
  case (Cons x xs)
  show ?case
  proof (cases "x = v")
    case True
    then have "f v \<notin> f ` set xs" using Cons.prems by auto
    then have "[y \<leftarrow> xs. f y = f v] = []" by (auto simp: filter_empty_conv image_iff)
    with True show ?thesis by simp
  next
    case False
    then have "v \<in> set xs" using Cons.prems by simp
    moreover have "f x \<noteq> f v" using Cons.prems(1) \<open>v \<in> set xs\<close> by auto
    ultimately show ?thesis using Cons by simp
  qed
qed

lemma filter_distinct_key_le1:
  assumes "distinct (map f xs)"
  shows "length [y \<leftarrow> xs. f y = k] \<le> 1"
proof (cases "\<exists>v \<in> set xs. f v = k")
  case True
  then obtain v where "v \<in> set xs" "f v = k" by blast
  with filter_distinct_key[OF assms this(1)] show ?thesis by simp
next
  case False
  then have "[y \<leftarrow> xs. f y = k] = []" by (auto simp: filter_empty_conv)
  then show ?thesis by simp
qed


text \<open>The handlers keep a valid store valid.\<close>

lemma valid_unwind_merge:
  assumes "unwind_merge k bof s rows names = (s', rows')" "valid s"
  shows "valid s'"
  using unwind_merge_facts(5,6,7)[OF assms(1)] assms(2) unfolding valid_def by blast

lemma valid_put_detach:
  assumes "put_detach k s bs = (s', bs')" "valid s"
  shows "valid s'"
  using put_detach_facts(1)[OF assms(1)] put_detach_links(3)[OF assms(1)] assms(2)
  unfolding valid_def unique_names_def named_def by simp

lemma valid_set_titles: "valid s \<Longrightarrow> valid (foldl (\<lambda>s b. set_title s b t) s bs)"
  unfolding valid_def unique_names_def unique_rels_def by (simp add: foldl_set_title)

lemma valid_put_query:
  assumes "put_query s i t as gs = (s', records)" "valid s"
  shows "valid s'"
proof -
  let ?s1 = "foldl (\<lambda>s b. set_title s b t) s (match_book s i)"
  obtain s2 bs1 where p1: "put_detach Author ?s1 (match_book s i) = (s2, bs1)"
    by (cases "put_detach Author ?s1 (match_book s i)")
  obtain s3 bs2 where p2: "put_detach Genre s2 bs1 = (s3, bs2)" by (cases "put_detach Genre s2 bs1")
  obtain s4 rows3 where u1: "unwind_merge Author (\<lambda>b. b) s3 bs2 as = (s4, rows3)"
    by (cases "unwind_merge Author (\<lambda>b. b) s3 bs2 as")
  obtain s5 rows4 where u2: "unwind_merge Genre (\<lambda>b. b) s4 (map fst rows3) gs = (s5, rows4)"
    by (cases "unwind_merge Genre (\<lambda>b. b) s4 (map fst rows3) gs")
  from assms(1) p1 p2 u1 u2 have s': "s' = s5"
    by (auto simp: put_query_def Let_def)
  show ?thesis unfolding s'
    by (rule valid_unwind_merge[OF u2 valid_unwind_merge[OF u1 valid_put_detach[OF p2
          valid_put_detach[OF p1 valid_set_titles[OF assms(2)]]]]])
qed

lemma valid_PUT: "valid s \<Longrightarrow> valid (snd (PUT neo4j_int s idParam bd))"
  unfolding PUT_def
  by (auto split: option.splits sum.splits prod.splits list.splits dest: valid_put_query)

lemma named_filter_nodes:
  "[(i, n). (i, NameNode k' n) \<leftarrow> filter (\<lambda>x. fst x \<noteq> b) ns, k' = k]
     = filter (\<lambda>x. fst x \<noteq> b) [(i, n). (i, NameNode k' n) \<leftarrow> ns, k' = k]"
  by (induction ns) (auto split: node.splits)

lemma valid_detach_delete: "valid s \<Longrightarrow> valid (detach_delete s b)"
  unfolding valid_def unique_names_def unique_rels_def detach_delete_def named_def
  by (simp add: named_filter_nodes distinct_map_filter)

lemma valid_detach_deletes: "valid s \<Longrightarrow> valid (foldl detach_delete s bs)"
  by (induction bs arbitrary: s) (simp_all add: valid_detach_delete)

lemma valid_DELETE: "valid s \<Longrightarrow> valid (snd (DELETE neo4j_int s idParam))"
  unfolding DELETE_def delete_query_def
  by (auto split: sum.splits simp: valid_detach_deletes Let_def)

lemma valid_create_book:
  assumes "create_book s u t = (s1, b)" "valid s"
  shows "valid s1" "b = fresh_node s" "nodes s1 = nodes s @ [(b, BookNode u t)]" "rels s1 = rels s"
proof -
  from assms(1) show b: "b = fresh_node s" and n: "nodes s1 = nodes s @ [(b, BookNode u t)]"
    and r: "rels s1 = rels s"
    by (auto simp: create_book_def Let_def)
  show "valid s1" using assms(2) fresh_node_notin[of s]
    unfolding valid_def unique_names_def unique_rels_def named_def n r b by simp
qed

lemma post_query_facts:
  assumes q: "post_query s u t as gs = (s', records)"
  shows "valid s \<Longrightarrow> valid s'"
    and "prefix (nodes s @ [(fresh_node s, BookNode u t)]) (nodes s')"
    and "prefix (rels s) (rels s')"
    and "rec \<in> set records \<Longrightarrow> fst rec = fresh_node s"
    and "n \<in> set as \<Longrightarrow> \<exists>rl \<in> set (rels s'). rtype rl = rel_of Author \<and>
           book_end Author rl = fresh_node s \<and> (other_end Author rl, NameNode Author n) \<in> set (nodes s')"
    and "as \<noteq> [] \<Longrightarrow> n \<in> set gs \<Longrightarrow> \<exists>rl \<in> set (rels s'). rtype rl = rel_of Genre \<and>
           book_end Genre rl = fresh_node s \<and> (other_end Genre rl, NameNode Genre n) \<in> set (nodes s')"
proof -
  let ?b = "fresh_node s"
  let ?s1 = "s\<lparr>nodes := nodes s @ [(?b, BookNode u t)]\<rparr>"
  have cb: "create_book s u t = (?s1, ?b)" by (simp add: create_book_def Let_def)
  obtain s2 rows1 where u1: "unwind_merge Author (\<lambda>b. b) ?s1 [?b] as = (s2, rows1)"
    by (cases "unwind_merge Author (\<lambda>b. b) ?s1 [?b] as")
  define rows2 where
    "rows2 = [(b1, remdups [a. (b2, a) \<leftarrow> rows1, b2 = b1]). b1 \<leftarrow> remdups (map fst rows1)]"
  obtain s3 rows3 where u2: "unwind_merge Genre fst s2 rows2 gs = (s3, rows3)"
    by (cases "unwind_merge Genre fst s2 rows2 gs")
  from q cb u1 u2 have s': "s' = s3"
    and rec: "records = [(b1, as1, remdups [g. (k2, g) \<leftarrow> rows3, k2 = (b1, as1)]).
               (b1, as1) \<leftarrow> remdups (map fst rows3)]"
    by (auto simp: post_query_def Let_def rows2_def)
  note m1 = unwind_merge_facts[OF u1] and m2 = unwind_merge_facts[OF u2]
  show "valid s'" if "valid s"
    unfolding s' using valid_unwind_merge[OF u2 valid_unwind_merge[OF u1 valid_create_book(1)[OF cb that]]] .
  show "prefix (nodes s @ [(fresh_node s, BookNode u t)]) (nodes s')"
    unfolding s' using m1(1) m2(1) by (auto intro: prefix_order.trans)
  show "prefix (rels s) (rels s')"
    unfolding s' using m1(3) m2(3) by (auto intro: prefix_order.trans)
  have rows1: "fst ` set rows1 = (if as = [] then {} else {?b})" using m1(9) by simp
  have rows2: "fst ` set rows2 = (if as = [] then {} else {?b})"
    using rows1 unfolding rows2_def by (auto simp: image_iff split: if_splits)
  have rows3: "fst ` fst ` set rows3 \<subseteq> {?b}"
    using m2(9) rows2 by (auto split: if_splits)
  show "fst rec = fresh_node s" if "rec \<in> set records"
  proof -
    from that have "\<exists>b1 as1. (b1, as1) \<in> fst ` set rows3 \<and> fst rec = b1"
      unfolding rec by force
    then obtain b1 as1 where "(b1, as1) \<in> fst ` set rows3" "fst rec = b1" by blast
    then have "b1 \<in> fst ` fst ` set rows3" by force
    with rows3 \<open>fst rec = b1\<close> show ?thesis by blast
  qed
  show "\<exists>rl \<in> set (rels s'). rtype rl = rel_of Author \<and>
           book_end Author rl = fresh_node s \<and> (other_end Author rl, NameNode Author n) \<in> set (nodes s')"
    if "n \<in> set as"
  proof -
    from m1(8)[of ?b n] that obtain rl where "rl \<in> set (rels s2)" "rtype rl = rel_of Author"
      "book_end Author rl = ?b" "(other_end Author rl, NameNode Author n) \<in> set (nodes s2)" by auto
    then show ?thesis unfolding s' using m2(1,3) by (auto simp: prefix_def)
  qed
  show "\<exists>rl \<in> set (rels s'). rtype rl = rel_of Genre \<and>
           book_end Genre rl = fresh_node s \<and> (other_end Genre rl, NameNode Genre n) \<in> set (nodes s')"
    if "as \<noteq> []" "n \<in> set gs"
  proof -
    from rows2 that(1) have "?b \<in> fst ` set rows2" by simp
    then obtain row where row: "row \<in> set rows2" "fst row = ?b" by force
    from m2(8)[OF row(1) that(2)] row(2) show ?thesis unfolding s' by auto
  qed
qed

lemma valid_POST: "valid s \<Longrightarrow> valid (snd (POST s u bd))"
  unfolding POST_def
  by (auto split: option.splits prod.splits list.splits dest: post_query_facts(1))

lemma valid_empty: "valid empty_store"
  by (simp add: valid_def unique_names_def unique_rels_def named_def empty_store_def)

lemma reachable_valid: "reachable s \<Longrightarrow> valid s"
  by (induction rule: reachable.induct) (simp_all add: valid_empty valid_POST valid_PUT valid_DELETE)







lemma valid_unique_names: "valid s \<Longrightarrow> unique_names k s"
  by (cases k) (simp_all add: valid_def)



section \<open>Search results\<close>

lemma distinct_concat_keyed:
  assumes "distinct xs" "\<And>x. x \<in> set xs \<Longrightarrow> length (L x) \<le> 1"
    and "\<And>x y. x \<in> set xs \<Longrightarrow> y \<in> set (L x) \<Longrightarrow> fst y = x"
  shows "distinct (map fst (concat (map L xs)))"
  using assms
proof (induction xs)
  case Nil then show ?case by simp
next
  case (Cons x xs)
  have 1: "distinct (map fst (L x))"
    using Cons.prems(2)[of x] by (cases "L x") auto
  have 2: "distinct (map fst (concat (map L xs)))"
    using Cons.IH Cons.prems by simp
  have 3: "fst ` set (L x) \<subseteq> {x}" using Cons.prems(3)[of x] by auto
  have 4: "fst ` set (concat (map L xs)) \<subseteq> set xs" using Cons.prems(3) by auto
  have "x \<notin> set xs" using Cons.prems(1) by simp
  with 3 4 have "fst ` set (L x) \<inter> fst ` set (concat (map L xs)) = {}" by blast
  with 1 2 show ?case by simp
qed

lemma length_concat_if:
  "length (concat (map (\<lambda>x. if P x then [f x] else []) ys)) = length (filter P ys)"
  by (induction ys) auto

lemma distinct_book_nodes:
  "distinct (map fst (nodes s)) \<Longrightarrow> distinct (map fst (book_nodes s))"
proof -
  have "map fst [(i, bid, t). (i, BookNode bid t) \<leftarrow> ns]
      = map fst [x \<leftarrow> ns. case snd x of BookNode bid t \<Rightarrow> True | NameNode k n \<Rightarrow> False]" for ns
    by (induction ns) (auto split: node.splits)
  then have "map fst (book_nodes s)
      = map fst [x \<leftarrow> nodes s. case snd x of BookNode bid t \<Rightarrow> True | NameNode k n \<Rightarrow> False]"
    unfolding book_nodes_def .
  then show "distinct (map fst (nodes s)) \<Longrightarrow> distinct (map fst (book_nodes s))"
    by (simp only: distinct_map_filter)
qed

lemma return_collect_distinct:
  assumes "distinct (map fst (nodes s))"
  shows "distinct (map fst (return_collect p s bs))"
proof -
  define rows where "rows = [(b, a, g). b \<leftarrow> bs,
                    a \<leftarrow> optional (map snd (links Author s b)),
                    g \<leftarrow> optional (map snd (links Genre s b))]"
  define L where "L = (\<lambda>b. concat (map (\<lambda>x. if fst x = b
      then [(\<lambda>(b2, bid, t). (b, bid, t,
           remdups (collect [map_option p a. (b1, a, g) \<leftarrow> rows, b1 = b]),
           remdups (collect [map_option p g. (b1, a, g) \<leftarrow> rows, b1 = b]))) x] else []) (book_nodes s)))"
  have rc: "return_collect p s bs = concat (map L (remdups (map fst rows)))"
    unfolding return_collect_def Let_def rows_def[symmetric] L_def
    by (rule arg_cong[where f = concat], rule map_cong[OF refl], rule arg_cong[where f = concat],
        rule map_cong[OF refl]) (auto split: prod.splits)
  have len: "length (L b) \<le> 1" for b
    unfolding L_def length_concat_if
    by (rule filter_distinct_key_le1[OF distinct_book_nodes[OF assms]])
  have key: "fst y = b" if "y \<in> set (L b)" for y b
    using that unfolding L_def by (auto split: if_splits prod.splits)
  show ?thesis unfolding rc
  proof (rule distinct_concat_keyed)
    show "distinct (remdups (map fst rows))" by simp
    show "length (L x) \<le> 1" for x by (rule len)
    show "fst y = x" if "y \<in> set (L x)" for x y using that by (rule key)
  qed
qed

lemma links_named: "(a, n) \<in> set (map snd (links k s b)) \<Longrightarrow> (a, n) \<in> set (named k s)"
  by (auto simp: in_links in_named)

lemma collected_names:
  assumes "unique_names k s" "distinct as" "set as = (\<lambda>a. a) ` set (map snd (links k s b))"
  shows "distinct (map snd as)" "set (map snd as) = linked_names k s b"
    "links k s b = [] \<Longrightarrow> map snd as = []"
proof -
  have "inj_on snd (set (named k s))" using assms(1) unfolding unique_names_def
    by (simp add: distinct_map)
  moreover have "set as \<subseteq> set (named k s)" using assms(3) links_named[of _ _ k s b] by auto
  ultimately have "inj_on snd (set as)" by (rule inj_on_subset)
  then show "distinct (map snd as)" using assms(2) by (simp add: distinct_map)
  show "set (map snd as) = linked_names k s b" unfolding linked_names_alt using assms(3) by simp
  show "map snd as = []" if "links k s b = []" using assms(3) that by simp
qed

text \<open>
  Claim C6. For a store that the handlers reach from the empty store and a search that
  succeeds: no two listed books have the same identity; the author names of a listed
  book are pairwise different and are exactly the names of the authors linked to it, and
  so for its genres, although the query has a row for each combination of an author and
  a genre; a book without linked authors (genres) is listed with the empty list.
\<close>

theorem search_lists_each_book_once:
  assumes "reachable s" and "GET neo4j_int s q = ok (Books out)"
  shows "distinct (map out_id out)
       \<and> (\<forall>bk \<in> set out. distinct (out_authors bk) \<and> distinct (out_genres bk)
            \<and> set (out_authors bk) = linked_names Author s (out_id bk)
            \<and> set (out_genres bk) = linked_names Genre s (out_id bk)
            \<and> (links Author s (out_id bk) = [] \<longrightarrow> out_authors bk = [])
            \<and> (links Genre s (out_id bk) = [] \<longrightarrow> out_genres bk = []))"
proof -
  have v: "valid s" by (rule reachable_valid[OF assms(1)])
  then have d: "distinct (map fst (nodes s))" by (simp add: valid_def)
  from assms(2) obtain cs where cs: "build_conditions neo4j_int q = Inr cs"
    and out: "out = listed (GET neo4j_int s q)" by (rule GET_ok)
  note out' = out[unfolded listed_GET[OF cs]]
  have "map out_id out = map fst (get_query s cs)"
    unfolding out' by (auto simp: comp_def split: prod.splits)
  then have 1: "distinct (map out_id out)"
    unfolding get_query_rows using return_collect_distinct[OF d] by simp
  have 2: "distinct (out_authors bk) \<and> distinct (out_genres bk)
            \<and> set (out_authors bk) = linked_names Author s (out_id bk)
            \<and> set (out_genres bk) = linked_names Genre s (out_id bk)
            \<and> (links Author s (out_id bk) = [] \<longrightarrow> out_authors bk = [])
            \<and> (links Genre s (out_id bk) = [] \<longrightarrow> out_genres bk = [])" if "bk \<in> set out" for bk
  proof -
    from that obtain b bid t as gs where r: "(b, bid, t, as, gs) \<in> set (get_query s cs)"
      and bk: "bk = \<lparr>out_id = b, out_bookId = bid, out_title = t,
                 out_authors = map snd as, out_genres = map snd gs\<rparr>"
      unfolding out' by auto
    note rs = return_collect_sets[OF r[unfolded get_query_rows]]
    note a = collected_names[OF valid_unique_names[OF v, of Author] rs(3) rs(1)]
    note g = collected_names[OF valid_unique_names[OF v, of Genre] rs(4) rs(2)]
    show ?thesis unfolding bk using a g by simp
  qed
  show ?thesis using 1 2 by blast
qed

theorem search_lists_each_book_once_witness:
  "reachable (snd (PUT demo_int example_store (Some ''0'')
        \<lparr>title = Some ''Dune II'', authors = JArr [], genres = JArr [''Novel'']\<rparr>))
   \<and> GET demo_int (snd (PUT demo_int example_store (Some ''0'')
        \<lparr>title = Some ''Dune II'', authors = JArr [], genres = JArr [''Novel'']\<rparr>))
        \<lparr>q_id = None, q_title = None, q_bookId = None, q_author = [], q_genre = []\<rparr> =
       ok (Books [\<lparr>out_id = 0, out_bookId = ''u1'', out_title = ''Dune II'',
                   out_authors = [], out_genres = []\<rparr>,
                  \<lparr>out_id = 4, out_bookId = ''u2'', out_title = ''Emma'',
                   out_authors = [''Shared''], out_genres = [''Novel'', ''Classic'']\<rparr>])
   \<and> distinct (map out_id
        [\<lparr>out_id = 0, out_bookId = ''u1'', out_title = ''Dune II'',
          out_authors = ([] :: string list), out_genres = []\<rparr>,
         \<lparr>out_id = 4, out_bookId = ''u2'', out_title = ''Emma'',
          out_authors = [''Shared''], out_genres = [''Novel'', ''Classic'']\<rparr>])
   \<and> links Author (snd (PUT demo_int example_store (Some ''0'')
        \<lparr>title = Some ''Dune II'', authors = JArr [], genres = JArr [''Novel'']\<rparr>)) 0 = []
   \<and> set [''Novel'', ''Classic''] =
       linked_names Genre (snd (PUT demo_int example_store (Some ''0'')
        \<lparr>title = Some ''Dune II'', authors = JArr [], genres = JArr [''Novel'']\<rparr>)) 4"
proof -
  let ?bd1 = "\<lparr>title = Some ''Dune'', authors = JArr [''Frank'', ''Shared''], genres = JArr [''Novel'']\<rparr>"
  let ?bd2 = "\<lparr>title = Some ''Emma'', authors = JArr [''Shared''], genres = JArr [''Novel'', ''Classic'']\<rparr>"
  define s where "s = snd (PUT demo_int example_store (Some ''0'')
        \<lparr>title = Some ''Dune II'', authors = JArr [], genres = JArr [''Novel'']\<rparr>)"
  define out where "out =
     [\<lparr>out_id = 0, out_bookId = ''u1'', out_title = ''Dune II'',
       out_authors = ([] :: string list), out_genres = []\<rparr>,
      \<lparr>out_id = 4, out_bookId = ''u2'', out_title = ''Emma'',
       out_authors = [''Shared''], out_genres = [''Novel'', ''Classic'']\<rparr>]"
  have e: "snd (POST (snd (POST empty_store ''u1'' ?bd1)) ''u2'' ?bd2) = example_store" by code_simp
  have "reachable example_store"
    using reachable.post[OF reachable.post[OF reachable.init, of "''u1''" ?bd1], of "''u2''" ?bd2]
    unfolding e .
  then have r: "reachable s" unfolding s_def by (rule reachable.put)
  have g: "GET demo_int s
        \<lparr>q_id = None, q_title = None, q_bookId = None, q_author = [], q_genre = []\<rparr> =
       ok (Books out)"
    unfolding s_def out_def by code_simp
  have l: "links Author s 0 = []" unfolding s_def by code_simp
  note t = search_lists_each_book_once [OF r g]
  from t have c3: "distinct (map out_id out)" by (rule conjunct1)
  have "\<lparr>out_id = 4, out_bookId = ''u2'', out_title = ''Emma'',
       out_authors = [''Shared''], out_genres = [''Novel'', ''Classic'']\<rparr> \<in> set out"
    unfolding out_def by simp
  with t have c5: "set [''Novel'', ''Classic''] = linked_names Genre s 4" by fastforce
  show ?thesis using r g c3 l c5 unfolding s_def out_def by (intro conjI)
qed

end
